(* ===== verification/Prelude.thy ===== *)
theory Prelude
  imports Main "HOL-Library.Word" "HOL-Library.Sublist"
begin

text \<open>
  Shared vocabulary of the development of \<^verbatim>\<open>src/netlib/odict.py\<close>: the types that
  name Python's values (\<open>str\<close>, \<open>bytes\<close>), the exceptions the module can raise, the
  collection of rewrite rules that the component theories extend, and generic lemmas
  on lists and sums that several components use.

  A Python \<open>str\<close> is modelled as a HOL \<open>string\<close> (a \<open>char list\<close>), each \<open>char\<close>
  read as a code point in U+0000..U+00FF (the Latin-1 block); Python's \<open>bytes\<close>
  are lists of 8-bit words.
\<close>

type_synonym pystr = string
type_synonym byte = "8 word"
type_synonym pybytes = "byte list"

text \<open>
  The Python exceptions the module raises or lets escape: \<open>ValueError\<close> (the guard
  of \<open>__setitem__\<close>), \<open>AttributeError\<close> (calling \<open>pop\<close> on a value without that
  method), \<open>IndexError\<close> (indexing or popping an empty list), \<open>TypeError\<close> (an
  object that is not of the kind the code indexes or iterates) and \<open>ReError\<close> (the
  \<open>re\<close> module's \<open>re.error\<close> for a malformed pattern).
\<close>

datatype pyerr = ValueError | AttributeError | IndexError | TypeError | ReError

named_theorems odict_simps "rewrite rules that evaluate the operations of the map"

subsection \<open>Bytes\<close>

lemma unat_byte_of_nat [simp]:
  "m < 256 \<Longrightarrow> unat (word_of_nat m :: byte) = m"
  by (simp add: unat_of_nat)

subsection \<open>Lists\<close>

text \<open>Comparing a list's first \<open>length n\<close> elements with \<open>n\<close> is the prefix test.\<close>

lemma take_eq_iff_prefix: "take (length n) h = n \<longleftrightarrow> prefix n h"
proof
  assume "take (length n) h = n"
  then have "h = n @ drop (length n) h"
    by (metis append_take_drop_id)
  then show "prefix n h" by (rule prefixI)
next
  assume "prefix n h"
  then obtain zs where "h = n @ zs" by (rule prefixE)
  then show "take (length n) h = n" by simp
qed

text \<open>Filtering by one test keeps the elements that pass a test implying it.\<close>

lemma filter_filter_implied:
  "(\<And>x. Q x \<Longrightarrow> P x) \<Longrightarrow> filter Q (filter P xs) = filter Q xs"
  by (induction xs) auto

end
