(* ===== verification/PyStr.thy ===== *)
theory PyStr
  imports Prelude
begin

text \<open>
  The Python string primitives that \<^verbatim>\<open>odict.py\<close> calls: \<open>str.lower\<close> (the key
  normalisation of \<open>ODictCaseless\<close> and the caseless test of \<open>in_any\<close>), the
  substring test \<open>a in b\<close>, \<open>str.encode('utf-8')\<close> and \<open>bytes.join\<close> (used by
  \<open>format\<close>). Strings are code points U+0000..U+00FF, on which the definitions
  below agree with CPython exactly. The UTF-8 decoder is not in the source: it is the
  inverse against which the encoder's round trip is proved.
\<close>

subsection \<open>str.lower on U+0000..U+00FF\<close>

text \<open>
  In this block CPython lowers exactly A..Z (U+0041..U+005A) and U+00C0..U+00DE except
  U+00D7 (the multiplication sign), each by adding 32.
\<close>

definition is_upper_cp :: "nat \<Rightarrow> bool" where
  "is_upper_cp n \<longleftrightarrow> (65 \<le> n \<and> n \<le> 90) \<or> (192 \<le> n \<and> n \<le> 222 \<and> n \<noteq> 215)"

definition lower_char :: "char \<Rightarrow> char" where
  "lower_char c = (if is_upper_cp (of_char c) then char_of (of_char c + 32 :: nat) else c)"

definition py_lower :: "pystr \<Rightarrow> pystr" where
  "py_lower s = map lower_char s"

subsection \<open>The substring test \<open>needle in hay\<close>\<close>

fun str_in :: "pystr \<Rightarrow> pystr \<Rightarrow> bool" where
  "str_in n [] \<longleftrightarrow> n = []"
| "str_in n (c # cs) \<longleftrightarrow> take (length n) (c # cs) = n \<or> str_in n cs"

subsection \<open>UTF-8 encoding of code points below 256\<close>

text \<open>
  A code point below 128 is one byte; U+0080..U+00FF is the two bytes
  \<open>110000xx 10xxxxxx\<close>.
\<close>

definition utf8_char :: "char \<Rightarrow> pybytes" where
  "utf8_char c = (let n = (of_char c :: nat) in
     if n < 128 then [word_of_nat n]
     else [word_of_nat (192 + n div 64), word_of_nat (128 + n mod 64)])"

definition utf8_encode :: "pystr \<Rightarrow> pybytes" where
  "utf8_encode s = concat (map utf8_char s)"

fun utf8_decode :: "pybytes \<Rightarrow> pystr option" where
  "utf8_decode [] = Some []"
| "utf8_decode (b # bs) =
     (if unat b < 128 then map_option (Cons (char_of (unat b))) (utf8_decode bs)
      else if unat b \<in> {194, 195} then
        (case bs of
          [] \<Rightarrow> None
        | b2 # bs' \<Rightarrow>
            if 128 \<le> unat b2 \<and> unat b2 < 192
            then map_option (Cons (char_of ((unat b - 192) * 64 + (unat b2 - 128)))) (utf8_decode bs')
            else None)
      else None)"

subsection \<open>bytes.join\<close>

text \<open>\<open>sep.join(xs)\<close>: the separator goes between consecutive elements only.\<close>

fun py_join :: "'a list \<Rightarrow> 'a list list \<Rightarrow> 'a list" where
  "py_join sep [] = []"
| "py_join sep [x] = x"
| "py_join sep (x # y # zs) = x @ sep @ py_join sep (y # zs)"

section \<open>Lemmas\<close>

subsection \<open>lower\<close>

lemma lower_char_code:
  "of_char (lower_char c) = (if is_upper_cp (of_char c) then of_char c + 32 else (of_char c :: nat))"
proof -
  have "of_char c < (256 :: nat)" by simp
  then have "is_upper_cp (of_char c) \<Longrightarrow> of_char c + 32 < (256 :: nat)"
    by (auto simp: is_upper_cp_def)
  then show ?thesis by (simp add: lower_char_def)
qed

lemma lower_char_idem [simp]: "lower_char (lower_char c) = lower_char c"
proof -
  have "\<not> is_upper_cp (of_char (lower_char c))"
    by (auto simp: lower_char_code is_upper_cp_def)
  then show ?thesis by (simp add: lower_char_def [of "lower_char c"])
qed

lemma py_lower_idem [simp]: "py_lower (py_lower s) = py_lower s"
  by (simp add: py_lower_def)

lemma length_py_lower [simp]: "length (py_lower s) = length s"
  by (simp add: py_lower_def)

lemma py_lower_append [simp]: "py_lower (s @ t) = py_lower s @ py_lower t"
  by (simp add: py_lower_def)

subsection \<open>The substring test is Python's \<open>in\<close>\<close>

lemma str_in_iff_sublist: "str_in n h \<longleftrightarrow> sublist n h"
proof (induction h)
  case Nil
  then show ?case by simp
next
  case (Cons c cs)
  then show ?case
    by (simp add: take_eq_iff_prefix sublist_Cons_right)
qed

subsection \<open>UTF-8\<close>

lemma utf8_char_decode:
  "utf8_decode (utf8_char c @ bs) = map_option (Cons c) (utf8_decode bs)"
proof -
  define n where "n = (of_char c :: nat)"
  have n: "n < 256" and c: "c = char_of n" by (simp_all add: n_def)
  show ?thesis
  proof (cases "n < 128")
    case True
    then show ?thesis
      by (simp add: utf8_char_def n_def [symmetric] c unat_of_nat)
  next
    case False
    then have hi: "n div 64 \<in> {2, 3}" using n by auto
    have b1: "unat (word_of_nat (192 + n div 64) :: byte) = 192 + n div 64"
      by (rule unat_byte_of_nat) (use hi in auto)
    have b2: "unat (word_of_nat (128 + n mod 64) :: byte) = 128 + n mod 64"
      by (rule unat_byte_of_nat) simp
    have recon: "(192 + n div 64 - 192) * 64 + (128 + n mod 64 - 128) = n"
      by simp
    from False hi have "utf8_char c = [word_of_nat (192 + n div 64), word_of_nat (128 + n mod 64)]"
      by (simp add: utf8_char_def n_def [symmetric])
    with hi b1 b2 recon c show ?thesis
      by auto
  qed
qed

lemma utf8_roundtrip: "utf8_decode (utf8_encode s) = Some s"
  by (induction s) (simp_all add: utf8_encode_def utf8_char_decode)

lemma length_utf8_char: "length (utf8_char c) \<in> {1, 2}"
  by (simp add: utf8_char_def Let_def)

lemma utf8_encode_append [simp]: "utf8_encode (s @ t) = utf8_encode s @ utf8_encode t"
  by (simp add: utf8_encode_def)

lemma utf8_encode_concat: "utf8_encode (concat xss) = concat (map utf8_encode xss)"
  by (induction xss) (simp_all add: utf8_encode_def)

lemma utf8_encode_ascii:
  "(\<forall>c\<in>set s. of_char c < (128::nat)) \<Longrightarrow> utf8_encode s = map (\<lambda>c. word_of_nat (of_char c)) s"
  by (induction s) (simp_all add: utf8_encode_def utf8_char_def)

subsection \<open>join\<close>

lemma py_join_terminated:
  "py_join sep (xs @ [[]]) = concat (map (\<lambda>x. x @ sep) xs)"
proof (induction xs)
  case Nil
  then show ?case by simp
next
  case (Cons x xs)
  then show ?case by (cases xs) simp_all
qed

end
