(* ===== verification/ODict.thy ===== *)
theory ODict
  imports PyStr
begin

text \<open>
  The classes \<open>ODict\<close> and \<open>ODictCaseless\<close> of \<^verbatim>\<open>src/netlib/odict.py\<close>: an
  object is its class and its attribute \<open>lst\<close>, a Python list of entries. Each method
  is a HOL function from the object (and its arguments) to the new object and its
  return value; a method that can raise returns \<open>pyerr + _\<close>. Every \<open>for\<close> loop of
  the source is a recursive function over the list with the loop's accumulator as an
  argument. The regular-expression engine (\<open>re.search\<close>, \<open>re.subn\<close>) is a parameter
  of the two methods that call it; \<^theory_text>\<open>Regex\<close> supplies one.
\<close>

section \<open>Data\<close>

text \<open>
  An entry of \<open>lst\<close> is a two-element Python sequence \<open>[key, value]\<close>. The methods
  build lists (\<open>[k, v]\<close>); a list passed to the constructor may hold tuples
  (\<open>(k, v)\<close>) as well. Python's \<open>==\<close> tells them apart (\<open>[k, v] != (k, v)\<close>), so
  the model keeps the distinction.
\<close>

datatype entry = LItem pystr pystr | TItem pystr pystr

fun ekey :: "entry \<Rightarrow> pystr" where
  "ekey (LItem k v) = k"
| "ekey (TItem k v) = k"

fun evalue :: "entry \<Rightarrow> pystr" where
  "evalue (LItem k v) = v"
| "evalue (TItem k v) = v"

datatype odict_class = ODict | ODictCaseless

record odict =
  cls :: odict_class
  lst :: "entry list"

text \<open>\<open>__init__(self, lst=None)\<close>: \<open>self.lst = lst or []\<close>.\<close>

definition init :: "odict_class \<Rightarrow> entry list option \<Rightarrow> odict" where
  "init c l = \<lparr>cls = c, lst = (case l of None \<Rightarrow> [] | Some xs \<Rightarrow> xs)\<rparr>"

text \<open>\<open>_kconv\<close>: the identity in \<open>ODict\<close>, \<open>s.lower()\<close> in the override of \<open>ODictCaseless\<close>.\<close>

definition kconv_plain :: "pystr \<Rightarrow> pystr" where
  "kconv_plain s = s"

definition kconv_caseless :: "pystr \<Rightarrow> pystr" where
  "kconv_caseless s = py_lower s"

fun kconv :: "odict_class \<Rightarrow> pystr \<Rightarrow> pystr" where
  "kconv ODict s = kconv_plain s"
| "kconv ODictCaseless s = kconv_caseless s"

section \<open>Operations\<close>

text \<open>\<open>__eq__\<close> and \<open>__ne__\<close> compare the lists only, not the classes.\<close>

definition odict_eq :: "odict \<Rightarrow> odict \<Rightarrow> bool" where
  "odict_eq m other \<longleftrightarrow> lst m = lst other"

definition odict_ne :: "odict \<Rightarrow> odict \<Rightarrow> bool" where
  "odict_ne m other \<longleftrightarrow> \<not> odict_eq m other"

text \<open>\<open>__getitem__\<close>: the loop appends the value of each matching entry to \<open>ret\<close>.\<close>

fun getitem_loop :: "odict_class \<Rightarrow> pystr \<Rightarrow> entry list \<Rightarrow> pystr list \<Rightarrow> pystr list" where
  "getitem_loop c k [] ret = ret"
| "getitem_loop c k (i # is) ret =
     getitem_loop c k is (if kconv c (ekey i) = k then ret @ [evalue i] else ret)"

definition getitem :: "odict \<Rightarrow> pystr \<Rightarrow> pystr list" where
  "getitem m k = getitem_loop (cls m) (kconv (cls m) k) (lst m) []"

text \<open>\<open>keys\<close>: \<open>list(set(...))\<close>; the order of that list is CPython's hash order, so
  the model returns the set.\<close>

definition keys :: "odict \<Rightarrow> pystr set" where
  "keys m = set (map (\<lambda>i. kconv (cls m) (ekey i)) (lst m))"

text \<open>\<open>_filter_lst(k, lst)\<close>: the entries whose converted key differs from \<open>k\<close>'s.\<close>

fun filter_lst_loop :: "odict_class \<Rightarrow> pystr \<Rightarrow> entry list \<Rightarrow> entry list \<Rightarrow> entry list" where
  "filter_lst_loop c k [] new = new"
| "filter_lst_loop c k (i # is) new =
     filter_lst_loop c k is (if kconv c (ekey i) \<noteq> k then new @ [i] else new)"

definition filter_lst :: "odict_class \<Rightarrow> pystr \<Rightarrow> entry list \<Rightarrow> entry list" where
  "filter_lst c k l = filter_lst_loop c (kconv c k) l []"

definition odict_len :: "odict \<Rightarrow> nat" where
  "odict_len m = length (lst m)"

subsection \<open>\<open>__setitem__\<close>\<close>

text \<open>
  The argument \<open>valuelist\<close> is any Python value; the ones the method can meet are a
  \<open>str\<close>, a \<open>list\<close> and a \<open>tuple\<close> of strings. Only \<open>str\<close> is rejected by the
  guard. The loop tests the value's truth (non-emptiness) and calls \<open>valuelist.pop(0)\<close>,
  which a tuple does not have.
\<close>

datatype pyarg = ArgStr pystr | ArgList "pystr list" | ArgTuple "pystr list"

fun arg_truthy :: "pyarg \<Rightarrow> bool" where
  "arg_truthy (ArgStr s) \<longleftrightarrow> s \<noteq> []"
| "arg_truthy (ArgList vs) \<longleftrightarrow> vs \<noteq> []"
| "arg_truthy (ArgTuple vs) \<longleftrightarrow> vs \<noteq> []"

fun arg_pop0 :: "pyarg \<Rightarrow> pyerr + (pystr \<times> pyarg)" where
  "arg_pop0 (ArgList []) = Inl IndexError"
| "arg_pop0 (ArgList (v # vs)) = Inr (v, ArgList vs)"
| "arg_pop0 (ArgTuple vs) = Inl AttributeError"
| "arg_pop0 (ArgStr s) = Inl AttributeError"

fun arg_len :: "pyarg \<Rightarrow> nat" where
  "arg_len (ArgStr s) = length s"
| "arg_len (ArgList vs) = length vs"
| "arg_len (ArgTuple vs) = length vs"

text \<open>The \<open>for i in self.lst\<close> loop of \<open>__setitem__\<close>: it returns the new list and
  what is left of \<open>valuelist\<close>.\<close>

fun setitem_walk ::
  "odict_class \<Rightarrow> pystr \<Rightarrow> pystr \<Rightarrow> entry list \<Rightarrow> pyarg \<Rightarrow> entry list \<Rightarrow> pyerr + (entry list \<times> pyarg)"
where
  "setitem_walk c k kc [] vl new = Inr (new, vl)"
| "setitem_walk c k kc (i # is) vl new =
     (if kconv c (ekey i) = kc then
        (if arg_truthy vl then
           (case arg_pop0 vl of
              Inl e \<Rightarrow> Inl e
            | Inr (v, vl') \<Rightarrow> setitem_walk c k kc is vl' (new @ [LItem k v]))
         else setitem_walk c k kc is vl new)
      else setitem_walk c k kc is vl (new @ [i]))"

text \<open>The \<open>while valuelist\<close> loop: each round pops one value and appends \<open>[k, v]\<close>.\<close>

function setitem_tail :: "pystr \<Rightarrow> pyarg \<Rightarrow> entry list \<Rightarrow> pyerr + entry list" where
  "setitem_tail k vl new =
     (if arg_truthy vl then
        (case arg_pop0 vl of
           Inl e \<Rightarrow> Inl e
         | Inr (v, vl') \<Rightarrow> setitem_tail k vl' (new @ [LItem k v]))
      else Inr new)"
  by pat_completeness auto

termination setitem_tail
  by (relation "measure (\<lambda>(k, vl, new). arg_len vl)") (auto elim!: arg_pop0.elims)

declare setitem_tail.simps [simp del]

definition setitem :: "odict \<Rightarrow> pystr \<Rightarrow> pyarg \<Rightarrow> pyerr + odict" where
  "setitem m k vl =
     (case vl of
        ArgStr s \<Rightarrow> Inl ValueError
      | _ \<Rightarrow>
        (case setitem_walk (cls m) k (kconv (cls m) k) (lst m) vl [] of
           Inl e \<Rightarrow> Inl e
         | Inr (new, vl') \<Rightarrow>
             (case setitem_tail k vl' new of
                Inl e \<Rightarrow> Inl e
              | Inr new' \<Rightarrow> Inr (m\<lparr>lst := new'\<rparr>))))"

subsection \<open>The other mutators and accessors\<close>

definition delitem :: "odict \<Rightarrow> pystr \<Rightarrow> odict" where
  "delitem m k = m\<lparr>lst := filter_lst (cls m) k (lst m)\<rparr>"

fun contains_loop :: "odict_class \<Rightarrow> pystr \<Rightarrow> entry list \<Rightarrow> bool" where
  "contains_loop c k [] = False"
| "contains_loop c k (i # is) = (if kconv c (ekey i) = kconv c k then True else contains_loop c k is)"

definition contains :: "odict \<Rightarrow> pystr \<Rightarrow> bool" where
  "contains m k = contains_loop (cls m) k (lst m)"

definition add :: "odict \<Rightarrow> pystr \<Rightarrow> pystr \<Rightarrow> odict" where
  "add m key value = m\<lparr>lst := lst m @ [LItem key value]\<rparr>"

text \<open>\<open>get\<close> and \<open>get_first\<close> return either what they found or the caller's default.\<close>

datatype ('a, 'd) found = Found 'a | Dflt 'd

definition get :: "odict \<Rightarrow> pystr \<Rightarrow> 'd \<Rightarrow> (pystr list, 'd) found" where
  "get m k d = (if contains m k then Found (getitem m k) else Dflt d)"

definition get_first :: "odict \<Rightarrow> pystr \<Rightarrow> 'd \<Rightarrow> pyerr + (pystr, 'd) found" where
  "get_first m k d =
     (if contains m k then (case getitem m k of [] \<Rightarrow> Inl IndexError | v # _ \<Rightarrow> Inr (Found v))
      else Inr (Dflt d))"

definition items :: "odict \<Rightarrow> entry list" where
  "items m = lst m"

text \<open>\<open>copy\<close>: a new object of the same class over a deep copy of the list. Values
  carry no identity here, so the copy equals the original; what the deep copy buys
  against aliasing is outside this value model.\<close>

definition copy :: "odict \<Rightarrow> odict" where
  "copy m = init (cls m) (Some (lst m))"

definition extend :: "odict \<Rightarrow> odict \<Rightarrow> odict" where
  "extend m other = m\<lparr>lst := lst m @ lst other\<rparr>"

subsection \<open>\<open>format\<close>\<close>

definition str_to_bytes :: "pystr \<Rightarrow> pybytes" where
  "str_to_bytes s = utf8_encode s"

definition colon_sp :: pybytes where
  "colon_sp = [58, 32]"

definition crlf :: pybytes where
  "crlf = [13, 10]"

definition format_line :: "entry \<Rightarrow> pybytes" where
  "format_line i = str_to_bytes (ekey i) @ colon_sp @ str_to_bytes (evalue i)"

definition format :: "odict \<Rightarrow> pybytes" where
  "format m = py_join crlf (map format_line (lst m) @ [[]])"

subsection \<open>\<open>in_any\<close>\<close>

fun in_any_loop :: "bool \<Rightarrow> pystr \<Rightarrow> pystr list \<Rightarrow> bool" where
  "in_any_loop caseless value [] = False"
| "in_any_loop caseless value (i # is) =
     (let i' = (if caseless then py_lower i else i) in
      if str_in value i' then True else in_any_loop caseless value is)"

definition in_any :: "odict \<Rightarrow> pystr \<Rightarrow> pystr \<Rightarrow> bool \<Rightarrow> bool" where
  "in_any m key value caseless =
     in_any_loop caseless (if caseless then py_lower value else value) (getitem m key)"

subsection \<open>Regular expressions\<close>

text \<open>
  The two entry points of Python's \<open>re\<close> module the class calls, as parameters:
  \<open>re.search(pattern, s)\<close> (does the pattern match somewhere in \<open>s\<close>) and
  \<open>re.subn(pattern, repl, s)\<close> (the rewritten string and the number of
  substitutions); both raise \<open>re.error\<close> on a malformed pattern.
\<close>

type_synonym re_search = "pystr \<Rightarrow> pystr \<Rightarrow> pyerr + bool"
type_synonym re_subn = "pystr \<Rightarrow> pystr \<Rightarrow> pystr \<Rightarrow> pyerr + (pystr \<times> nat)"

text \<open>\<open>safe_subn\<close> applies \<open>str()\<close> to pattern and replacement, the identity on \<open>str\<close>.\<close>

definition safe_subn :: "re_subn \<Rightarrow> pystr \<Rightarrow> pystr \<Rightarrow> pystr \<Rightarrow> pyerr + (pystr \<times> nat)" where
  "safe_subn subn pattern repl target = subn pattern repl target"

definition match_text :: "entry \<Rightarrow> pystr" where
  "match_text i = ekey i @ '': '' @ evalue i"

fun match_re_loop :: "re_search \<Rightarrow> pystr \<Rightarrow> entry list \<Rightarrow> pyerr + bool" where
  "match_re_loop search expr [] = Inr False"
| "match_re_loop search expr (i # is) =
     (case search expr (match_text i) of
        Inl e \<Rightarrow> Inl e
      | Inr True \<Rightarrow> Inr True
      | Inr False \<Rightarrow> match_re_loop search expr is)"

definition match_re :: "re_search \<Rightarrow> odict \<Rightarrow> pystr \<Rightarrow> pyerr + bool" where
  "match_re search m expr = match_re_loop search expr (lst m)"

fun replace_loop ::
  "re_subn \<Rightarrow> pystr \<Rightarrow> pystr \<Rightarrow> entry list \<Rightarrow> entry list \<Rightarrow> nat \<Rightarrow> pyerr + (entry list \<times> nat)"
where
  "replace_loop subn pattern repl [] nlst count = Inr (nlst, count)"
| "replace_loop subn pattern repl (i # is) nlst count =
     (case safe_subn subn pattern repl (ekey i) of
        Inl e \<Rightarrow> Inl e
      | Inr (k, c) \<Rightarrow>
          (case safe_subn subn pattern repl (evalue i) of
             Inl e \<Rightarrow> Inl e
           | Inr (v, c') \<Rightarrow> replace_loop subn pattern repl is (nlst @ [LItem k v]) (count + c + c')))"

definition replace :: "re_subn \<Rightarrow> odict \<Rightarrow> pystr \<Rightarrow> pystr \<Rightarrow> pyerr + (odict \<times> nat)" where
  "replace subn m pattern repl =
     (case replace_loop subn pattern repl (lst m) [] 0 of
        Inl e \<Rightarrow> Inl e
      | Inr (nlst, count) \<Rightarrow> Inr (m\<lparr>lst := nlst\<rparr>, count))"

subsection \<open>The state-object protocol\<close>

text \<open>\<open>get_state\<close> turns each entry into a tuple; \<open>load_state\<close> and \<open>from_state\<close>
  turn each tuple back into a list \<open>[k, v]\<close>.\<close>

definition get_state :: "odict \<Rightarrow> (pystr \<times> pystr) list" where
  "get_state m = map (\<lambda>i. (ekey i, evalue i)) (lst m)"

definition load_state :: "odict \<Rightarrow> (pystr \<times> pystr) list \<Rightarrow> odict" where
  "load_state m st = m\<lparr>lst := map (\<lambda>(k, v). LItem k v) st\<rparr>"

definition from_state :: "odict_class \<Rightarrow> (pystr \<times> pystr) list \<Rightarrow> odict" where
  "from_state klass st = init klass (Some (map (\<lambda>(k, v). LItem k v) st))"

section \<open>Reference definitions\<close>

text \<open>
  Loop-free descriptions of what the loops above compute, used as specifications:
  the values under a converted key, the list \<open>__setitem__\<close> should produce
  (matching entries overwritten in place while values last, surplus matching entries
  dropped, surplus values appended), and the entries the methods themselves build
  (lists, not tuples).
\<close>

definition values_of :: "odict_class \<Rightarrow> pystr \<Rightarrow> entry list \<Rightarrow> pystr list" where
  "values_of c nk xs = map evalue (filter (\<lambda>i. kconv c (ekey i) = nk) xs)"

fun set_values_ref :: "odict_class \<Rightarrow> pystr \<Rightarrow> pystr \<Rightarrow> entry list \<Rightarrow> pystr list \<Rightarrow> entry list" where
  "set_values_ref c k nk [] vs = map (LItem k) vs"
| "set_values_ref c k nk (i # is) vs =
     (if kconv c (ekey i) = nk then
        (case vs of
           [] \<Rightarrow> set_values_ref c k nk is []
         | v # vs' \<Rightarrow> LItem k v # set_values_ref c k nk is vs')
      else i # set_values_ref c k nk is vs)"

abbreviation n_matches :: "odict_class \<Rightarrow> pystr \<Rightarrow> entry list \<Rightarrow> nat" where
  "n_matches c nk xs \<equiv> length (filter (\<lambda>i. kconv c (ekey i) = nk) xs)"

fun is_litem :: "entry \<Rightarrow> bool" where
  "is_litem (LItem k v) = True"
| "is_litem (TItem k v) = False"

definition wf_odict :: "odict \<Rightarrow> bool" where
  "wf_odict m \<longleftrightarrow> list_all is_litem (lst m)"

section \<open>Lemmas\<close>

lemma kconv_idem [simp]: "kconv c (kconv c s) = kconv c s"
  by (cases c) (simp_all add: kconv_plain_def kconv_caseless_def)

lemma getitem_loop_eq: "getitem_loop c k xs ret = ret @ values_of c k xs"
  by (induction xs arbitrary: ret) (simp_all add: values_of_def)

lemma getitem_values_of [odict_simps]:
  "getitem m k = values_of (cls m) (kconv (cls m) k) (lst m)"
  by (simp add: getitem_def getitem_loop_eq)

lemma filter_lst_loop_eq:
  "filter_lst_loop c k xs new = new @ filter (\<lambda>i. kconv c (ekey i) \<noteq> k) xs"
  by (induction xs arbitrary: new) simp_all

lemma filter_lst_eq [odict_simps]:
  "filter_lst c k xs = filter (\<lambda>i. kconv c (ekey i) \<noteq> kconv c k) xs"
  by (simp add: filter_lst_def filter_lst_loop_eq)

lemma values_of_append [odict_simps]:
  "values_of c nk (xs @ ys) = values_of c nk xs @ values_of c nk ys"
  by (simp add: values_of_def)

lemma values_of_single [odict_simps]:
  "values_of c nk [i] = (if kconv c (ekey i) = nk then [evalue i] else [])"
  by (simp add: values_of_def)

lemma values_of_filter_other [odict_simps]:
  "values_of c nk (filter (\<lambda>i. kconv c (ekey i) \<noteq> nk0) xs) = (if nk = nk0 then [] else values_of c nk xs)"
  by (auto simp: values_of_def filter_filter_implied filter_empty_conv simp del: filter_filter)

declare add_def [odict_simps] delitem_def [odict_simps] extend_def [odict_simps]

lemma contains_loop_iff:
  "contains_loop c k xs \<longleftrightarrow> values_of c (kconv c k) xs \<noteq> []"
  by (induction xs) (simp_all add: values_of_def)

lemma contains_iff_getitem:
  "contains m k \<longleftrightarrow> getitem m k \<noteq> []"
  by (simp add: contains_def contains_loop_iff getitem_values_of)

lemma setitem_tail_list:
  "setitem_tail k (ArgList vs) new = Inr (new @ map (LItem k) vs)"
proof (induction vs arbitrary: new)
  case Nil
  then show ?case by (simp add: setitem_tail.simps)
next
  case (Cons v vs)
  then show ?case by (simp add: setitem_tail.simps [of k "ArgList (v # vs)"])
qed

lemma setitem_walk_list:
  "setitem_walk c k nk xs (ArgList vs) new =
     Inr (new @ set_values_ref c k nk xs (take (n_matches c nk xs) vs),
          ArgList (drop (n_matches c nk xs) vs))"
proof (induction xs arbitrary: vs new)
  case Nil
  then show ?case by simp
next
  case (Cons i rest)
  then show ?case by (cases vs) simp_all
qed

lemma set_values_ref_split:
  "set_values_ref c k nk xs (take (n_matches c nk xs) vs) @ map (LItem k) (drop (n_matches c nk xs) vs) =
     set_values_ref c k nk xs vs"
proof (induction xs arbitrary: vs)
  case Nil
  then show ?case by simp
next
  case (Cons i rest)
  then show ?case by (cases vs) simp_all
qed

lemma setitem_list:
  "setitem m k (ArgList vs) =
     Inr (m\<lparr>lst := set_values_ref (cls m) k (kconv (cls m) k) (lst m) vs\<rparr>)"
  by (simp add: setitem_def setitem_walk_list setitem_tail_list set_values_ref_split)

lemma setitem_walk_empty_tuple:
  "setitem_walk c k nk xs (ArgTuple []) new = Inr (new @ filter (\<lambda>i. kconv c (ekey i) \<noteq> nk) xs, ArgTuple [])"
  by (induction xs arbitrary: new) simp_all

lemma setitem_walk_tuple:
  "vs \<noteq> [] \<Longrightarrow> setitem_walk c k nk xs (ArgTuple vs) new =
     (if n_matches c nk xs = 0 then Inr (new @ xs, ArgTuple vs) else Inl AttributeError)"
  by (induction xs arbitrary: new) simp_all

lemma setitem_tail_tuple:
  "setitem_tail k (ArgTuple vs) new = (if vs = [] then Inr new else Inl AttributeError)"
  by (simp add: setitem_tail.simps)

lemma setitem_tuple:
  "setitem m k (ArgTuple vs) = (if vs = [] then Inr (delitem m k) else Inl AttributeError)"
  by (simp add: setitem_def delitem_def filter_lst_eq setitem_walk_empty_tuple setitem_walk_tuple
      setitem_tail_tuple)

lemma setitem_str: "setitem m k (ArgStr s) = Inl ValueError"
  by (simp add: setitem_def)

lemma filter_match_set_values_ref:
  "kconv c k = nk \<Longrightarrow>
   filter (\<lambda>i. kconv c (ekey i) = nk) (set_values_ref c k nk xs vs) = map (LItem k) vs"
proof (induction xs arbitrary: vs)
  case Nil
  then show ?case by (simp add: filter_id_conv)
next
  case (Cons i rest)
  then show ?case by (cases vs) simp_all
qed

lemma values_of_set_values_ref_same:
  "kconv c k = nk \<Longrightarrow> values_of c nk (set_values_ref c k nk xs vs) = vs"
  by (simp add: values_of_def filter_match_set_values_ref comp_def)

lemma values_of_set_values_ref_other:
  "kconv c k = nk \<Longrightarrow> nk' \<noteq> nk \<Longrightarrow> values_of c nk' (set_values_ref c k nk xs vs) = values_of c nk' xs"
proof (induction xs arbitrary: vs)
  case Nil
  then show ?case by (simp add: values_of_def filter_empty_conv)
next
  case (Cons i rest)
  then show ?case by (cases vs) (auto simp: values_of_def)
qed

lemma filter_set_values_ref:
  "kconv c k = nk \<Longrightarrow>
   filter (\<lambda>i. kconv c (ekey i) \<noteq> nk) (set_values_ref c k nk xs vs) = filter (\<lambda>i. kconv c (ekey i) \<noteq> nk) xs"
proof (induction xs arbitrary: vs)
  case Nil
  then show ?case by (simp add: filter_empty_conv)
next
  case (Cons i rest)
  then show ?case by (cases vs) simp_all
qed

lemma length_set_values_ref:
  "length (set_values_ref c k nk xs vs) = length (filter (\<lambda>i. kconv c (ekey i) \<noteq> nk) xs) + length vs"
proof (induction xs arbitrary: vs)
  case Nil
  then show ?case by simp
next
  case (Cons i rest)
  then show ?case by (cases vs) simp_all
qed

lemma wf_set_values_ref:
  "list_all is_litem xs \<Longrightarrow> list_all is_litem (set_values_ref c k nk xs vs)"
proof (induction xs arbitrary: vs)
  case Nil
  then show ?case by (simp add: list_all_iff)
next
  case (Cons i rest)
  then show ?case by (cases vs) simp_all
qed

lemma state_roundtrip_list:
  "map (\<lambda>i. LItem (ekey i) (evalue i)) xs = xs \<longleftrightarrow> list_all is_litem xs"
proof (induction xs)
  case Nil
  then show ?case by simp
next
  case (Cons i rest)
  then show ?case by (cases i) simp_all
qed

lemma wf_init_None: "wf_odict (init c None)"
  by (simp add: wf_odict_def init_def)

lemma wf_add: "wf_odict m \<Longrightarrow> wf_odict (add m k v)"
  by (simp add: wf_odict_def add_def)

lemma wf_delitem: "wf_odict m \<Longrightarrow> wf_odict (delitem m k)"
  by (simp add: wf_odict_def delitem_def filter_lst_eq list_all_iff)

lemma wf_extend: "wf_odict m \<Longrightarrow> wf_odict other \<Longrightarrow> wf_odict (extend m other)"
  by (simp add: wf_odict_def extend_def)

lemma wf_setitem: "wf_odict m \<Longrightarrow> setitem m k vl = Inr m' \<Longrightarrow> wf_odict m'"
proof (cases vl)
  case (ArgStr s)
  then show "setitem m k vl = Inr m' \<Longrightarrow> wf_odict m'" by (simp add: setitem_str)
next
  case (ArgList vs)
  then show "wf_odict m \<Longrightarrow> setitem m k vl = Inr m' \<Longrightarrow> wf_odict m'"
    by (auto simp: setitem_list wf_odict_def wf_set_values_ref)
next
  case (ArgTuple vs)
  then show "wf_odict m \<Longrightarrow> setitem m k vl = Inr m' \<Longrightarrow> wf_odict m'"
    by (auto simp: setitem_tuple wf_delitem split: if_splits)
qed

lemma wf_load_state: "wf_odict (load_state m st)"
  by (simp add: wf_odict_def load_state_def list_all_iff split_def)

lemma wf_from_state: "wf_odict (from_state c st)"
  by (simp add: wf_odict_def from_state_def init_def list_all_iff split_def)

lemma replace_loop_shape:
  "replace_loop subn p r xs nlst cnt = Inr (res, n) \<Longrightarrow>
   length res = length nlst + length xs \<and> (list_all is_litem nlst \<longrightarrow> list_all is_litem res)"
proof (induction xs arbitrary: nlst cnt)
  case Nil
  then show ?case by simp
next
  case (Cons i rest)
  then show ?case
    by (fastforce simp: split: sum.splits prod.splits)
qed

lemma replace_shape:
  "replace subn m p r = Inr (m', n) \<Longrightarrow>
   cls m' = cls m \<and> odict_len m' = odict_len m \<and> wf_odict m'"
  using replace_loop_shape [of subn p r "lst m" "[]" 0]
  by (auto simp: replace_def odict_len_def wf_odict_def split: sum.splits prod.splits)

lemma replace_loop_total:
  "(\<And>s. subn p r s = Inr (f s, g s)) \<Longrightarrow>
   replace_loop subn p r xs nlst cnt =
     Inr (nlst @ map (\<lambda>i. LItem (f (ekey i)) (f (evalue i))) xs,
          cnt + sum_list (map (\<lambda>i. g (ekey i) + g (evalue i)) xs))"
  by (induction xs arbitrary: nlst cnt) (simp_all add: safe_subn_def add.assoc)

lemma match_re_loop_total:
  "(\<And>s. search e s = Inr (P s)) \<Longrightarrow> match_re_loop search e xs = Inr (list_ex (\<lambda>i. P (match_text i)) xs)"
  by (induction xs) (simp_all split: bool.split)

lemma in_any_loop_eq:
  "in_any_loop cl v xs = list_ex (\<lambda>x. sublist v (if cl then py_lower x else x)) xs"
  by (induction xs) (simp_all add: str_in_iff_sublist Let_def)

lemma set_values_ref_new:
  "kconv c k = nk \<Longrightarrow> set_values_ref c k nk (map (LItem k) vs) vs = map (LItem k) vs"
  by (induction vs) simp_all

lemma set_values_ref_idem:
  "kconv c k = nk \<Longrightarrow> set_values_ref c k nk (set_values_ref c k nk xs vs) vs = set_values_ref c k nk xs vs"
proof (induction xs arbitrary: vs)
  case Nil
  then show ?case by (simp add: set_values_ref_new)
next
  case (Cons i rest)
  then show ?case by (cases vs) simp_all
qed


section \<open>Properties\<close>

subsection \<open>\<open>__setitem__\<close>\<close>

text \<open>
  C1: Setting a key to a list of values rewrites the entry list exactly as the reference
  \<open>set_values_ref\<close> describes: the matching entries are overwritten in place, in
  order, while values last (each rewritten entry takes the caller's key), the surplus
  matching entries are dropped, the surplus values are appended as new entries, and
  every other entry keeps its place.
\<close>

theorem setitem_overwrite_then_append:
  "setitem m k (ArgList vs) =
     Inr (m\<lparr>lst := set_values_ref (cls m) k (kconv (cls m) k) (lst m) vs\<rparr>)"
  by (rule setitem_list)

text \<open>C2: After \<open>m[k] = vs\<close> returns, \<open>m[k]\<close> is \<open>vs\<close>.\<close>

theorem getitem_setitem:
  "setitem m k (ArgList vs) = Inr m' \<Longrightarrow> getitem m' k = vs"
  by (auto simp: setitem_list getitem_values_of values_of_set_values_ref_same)

theorem getitem_setitem_witness:
  "setitem \<lparr>cls = ODict, lst = [LItem ''a'' ''1'', LItem ''b'' ''x'', LItem ''a'' ''2'']\<rparr> ''a'' (ArgList [''9'']) = Inr \<lparr>cls = ODict, lst = [LItem ''a'' ''9'', LItem ''b'' ''x'']\<rparr> \<and>
   getitem \<lparr>cls = ODict, lst = [LItem ''a'' ''9'', LItem ''b'' ''x'']\<rparr> ''a'' = [''9'']"
proof -
  have h: "setitem \<lparr>cls = ODict, lst = [LItem ''a'' ''1'', LItem ''b'' ''x'', LItem ''a'' ''2'']\<rparr> ''a'' (ArgList [''9'']) = Inr \<lparr>cls = ODict, lst = [LItem ''a'' ''9'', LItem ''b'' ''x'']\<rparr>"
    by code_simp
  show ?thesis using getitem_setitem [OF h] h by simp
qed

text \<open>
  C3: Setting one key leaves every entry under another converted key where it was:
  the entries that do not match the key are the same list, in the same order, before
  and after.
\<close>

theorem setitem_keeps_other_entries:
  "setitem m k (ArgList vs) = Inr m' \<Longrightarrow>
   filter (\<lambda>i. kconv (cls m) (ekey i) \<noteq> kconv (cls m) k) (lst m') =
   filter (\<lambda>i. kconv (cls m) (ekey i) \<noteq> kconv (cls m) k) (lst m)"
  by (auto simp: setitem_list filter_set_values_ref)

theorem setitem_keeps_other_entries_witness:
  "setitem \<lparr>cls = ODict, lst = [LItem ''a'' ''1'', LItem ''b'' ''x'', LItem ''a'' ''2'']\<rparr> ''a'' (ArgList []) = Inr \<lparr>cls = ODict, lst = [LItem ''b'' ''x'']\<rparr> \<and>
   filter (\<lambda>i. kconv ODict (ekey i) \<noteq> kconv ODict ''a'') [LItem ''b'' ''x''] =
   filter (\<lambda>i. kconv ODict (ekey i) \<noteq> kconv ODict ''a'') (lst \<lparr>cls = ODict, lst = [LItem ''a'' ''1'', LItem ''b'' ''x'', LItem ''a'' ''2'']\<rparr>)"
proof -
  have h: "setitem \<lparr>cls = ODict, lst = [LItem ''a'' ''1'', LItem ''b'' ''x'', LItem ''a'' ''2'']\<rparr> ''a'' (ArgList []) = Inr \<lparr>cls = ODict, lst = [LItem ''b'' ''x'']\<rparr>"
    by code_simp
  show ?thesis using setitem_keeps_other_entries [OF h] h by simp
qed

text \<open>C4: Passing a single string instead of a list of values raises \<open>ValueError\<close>.\<close>

theorem setitem_rejects_str: "setitem m k (ArgStr s) = Inl ValueError"
  by (rule setitem_str)

text \<open>
  C5: A tuple of values is not accepted as a list: a non-empty tuple raises
  \<open>AttributeError\<close> (tuples have no \<open>pop\<close>), and the empty tuple deletes the key.
\<close>

theorem setitem_tuple_argument:
  "setitem m k (ArgTuple vs) = (if vs = [] then Inr (delitem m k) else Inl AttributeError)"
  by (rule setitem_tuple)

text \<open>
  Setting \<open>a\<close> to three values in \<open>[(a,1), (b,x), (a,2)]\<close> overwrites the two
  \<open>a\<close> entries in place and appends the third value.
\<close>

theorem setitem_example_overwrite:
  "setitem \<lparr>cls = ODict, lst = [LItem ''a'' ''1'', LItem ''b'' ''x'', LItem ''a'' ''2'']\<rparr> ''a'' (ArgList [''9'', ''8'', ''7'']) =
     Inr \<lparr>cls = ODict, lst = [LItem ''a'' ''9'', LItem ''b'' ''x'', LItem ''a'' ''8'', LItem ''a'' ''7'']\<rparr>"
  by code_simp

text \<open>Setting \<open>a\<close> to one value in \<open>[(a,1), (a,2), (a,3)]\<close> keeps only the first slot.\<close>

theorem setitem_example_truncate:
  "setitem \<lparr>cls = ODict, lst = [LItem ''a'' ''1'', LItem ''a'' ''2'', LItem ''a'' ''3'']\<rparr> ''a'' (ArgList [''9'']) =
     Inr \<lparr>cls = ODict, lst = [LItem ''a'' ''9'']\<rparr>"
  by code_simp

text \<open>
  C6: The number of entries after \<open>m[k] = vs\<close> is the number before, less the old
  values of \<open>k\<close>, plus the new ones.
\<close>

theorem setitem_length:
  "setitem m k (ArgList vs) = Inr m' \<Longrightarrow> odict_len m' + length (getitem m k) = odict_len m + length vs"
proof -
  assume "setitem m k (ArgList vs) = Inr m'"
  then have "lst m' = set_values_ref (cls m) k (kconv (cls m) k) (lst m) vs"
    by (auto simp: setitem_list)
  moreover have "length (filter (\<lambda>i. kconv (cls m) (ekey i) \<noteq> kconv (cls m) k) (lst m)) +
      n_matches (cls m) (kconv (cls m) k) (lst m) = length (lst m)"
    using sum_length_filter_compl [of "\<lambda>i. kconv (cls m) (ekey i) = kconv (cls m) k" "lst m"]
    by simp
  ultimately show ?thesis
    by (simp add: odict_len_def length_set_values_ref getitem_values_of values_of_def)
qed

theorem setitem_length_witness:
  "setitem \<lparr>cls = ODict, lst = [LItem ''a'' ''1'', LItem ''b'' ''x'', LItem ''a'' ''2'']\<rparr> ''a'' (ArgList [''9'']) = Inr \<lparr>cls = ODict, lst = [LItem ''a'' ''9'', LItem ''b'' ''x'']\<rparr> \<and>
   odict_len \<lparr>cls = ODict, lst = [LItem ''a'' ''9'', LItem ''b'' ''x'']\<rparr> + length (getitem \<lparr>cls = ODict, lst = [LItem ''a'' ''1'', LItem ''b'' ''x'', LItem ''a'' ''2'']\<rparr> ''a'') =
   odict_len \<lparr>cls = ODict, lst = [LItem ''a'' ''1'', LItem ''b'' ''x'', LItem ''a'' ''2'']\<rparr> + length [''9'']"
proof -
  have h: "setitem \<lparr>cls = ODict, lst = [LItem ''a'' ''1'', LItem ''b'' ''x'', LItem ''a'' ''2'']\<rparr> ''a'' (ArgList [''9'']) = Inr \<lparr>cls = ODict, lst = [LItem ''a'' ''9'', LItem ''b'' ''x'']\<rparr>"
    by code_simp
  show ?thesis using setitem_length [OF h] h by simp
qed

text \<open>Setting a key twice to the same values is the same as setting it once.\<close>

theorem setitem_idem:
  "setitem m k (ArgList vs) = Inr m' \<Longrightarrow> setitem m' k (ArgList vs) = Inr m'"
  by (auto simp: setitem_list set_values_ref_idem)

theorem setitem_idem_witness:
  "setitem \<lparr>cls = ODict, lst = [LItem ''a'' ''1'', LItem ''b'' ''x'', LItem ''a'' ''2'']\<rparr> ''a'' (ArgList [''9'']) = Inr \<lparr>cls = ODict, lst = [LItem ''a'' ''9'', LItem ''b'' ''x'']\<rparr> \<and>
   setitem \<lparr>cls = ODict, lst = [LItem ''a'' ''9'', LItem ''b'' ''x'']\<rparr> ''a'' (ArgList [''9'']) =
     Inr \<lparr>cls = ODict, lst = [LItem ''a'' ''9'', LItem ''b'' ''x'']\<rparr>"
proof -
  have h: "setitem \<lparr>cls = ODict, lst = [LItem ''a'' ''1'', LItem ''b'' ''x'', LItem ''a'' ''2'']\<rparr> ''a'' (ArgList [''9'']) = Inr \<lparr>cls = ODict, lst = [LItem ''a'' ''9'', LItem ''b'' ''x'']\<rparr>"
    by code_simp
  show ?thesis using setitem_idem [OF h] h by simp
qed

subsection \<open>Lookup, deletion, addition\<close>

text \<open>
  C19: The loop of \<open>__getitem__\<close> returns the values of the entries whose converted
  key equals the converted argument, in list order.
\<close>

theorem getitem_is_filter:
  "getitem m k = map evalue (filter (\<lambda>i. kconv (cls m) (ekey i) = kconv (cls m) k) (lst m))"
  by (simp add: getitem_values_of values_of_def)

text \<open>C20: \<open>k in m\<close> holds exactly when \<open>m[k]\<close> is non-empty.\<close>

theorem contains_iff_values:
  "contains m k \<longleftrightarrow> getitem m k \<noteq> []"
  by (rule contains_iff_getitem)

text \<open>C21: After \<open>del m[k]\<close> the key has no values and every other key keeps its values.\<close>

lemma getitem_delitem:
  "getitem (delitem m k) k' = (if kconv (cls m) k' = kconv (cls m) k then [] else getitem m k')"
  by (simp add: odict_simps)

text \<open>\<open>add\<close> appends the value to the values of its key and of no other key.\<close>

lemma getitem_add:
  "getitem (add m k v) k' = getitem m k' @ (if kconv (cls m) k' = kconv (cls m) k then [v] else [])"
  by (simp add: odict_simps)

text \<open>
  Looking a key up by its converted form finds the same values as looking it up
  by itself; in \<open>ODictCaseless\<close> any casing of a key finds the same values.
\<close>

theorem getitem_kconv: "getitem m (kconv (cls m) k) = getitem m k"
  by (simp add: getitem_values_of)

text \<open>
  In \<open>ODictCaseless\<close>, after \<open>add("HOST", "x")\<close> the key \<open>Host\<close> is present
  and \<open>m["host"]\<close> is \<open>["x"]\<close>.
\<close>

theorem caseless_example:
  "contains (add (init ODictCaseless None) ''HOST'' ''x'') ''Host'' \<and>
   getitem (add (init ODictCaseless None) ''HOST'' ''x'') ''host'' = [''x'']"
  by code_simp

text \<open>\<open>keys()\<close> holds the converted keys that have at least one value.\<close>

theorem keys_eq: "keys m = {nk. values_of (cls m) nk (lst m) \<noteq> []}"
  by (auto simp: keys_def values_of_def filter_empty_conv)

text \<open>C22: \<open>get_first\<close> never raises: the \<open>k in self\<close> guard makes \<open>self[k][0]\<close>
  safe, so it returns the first value of the key, or the default when there is none.\<close>

theorem get_first_eq:
  "get_first m k d = Inr (case getitem m k of [] \<Rightarrow> Dflt d | v # _ \<Rightarrow> Found v)"
  by (simp add: get_first_def contains_iff_getitem split: list.splits)

text \<open>
  C39: \<open>in_any(key, value, caseless)\<close> holds exactly when \<open>value\<close> is a substring of
  one of the key's values, both lowered when \<open>caseless\<close> is set.
\<close>

theorem in_any_iff:
  "in_any m key value cl \<longleftrightarrow>
   list_ex (\<lambda>x. sublist (if cl then py_lower value else value) (if cl then py_lower x else x)) (getitem m key)"
  by (simp add: in_any_def in_any_loop_eq)

subsection \<open>Snapshots\<close>

text \<open>
  C29: Restoring the snapshot of a map gives back the same map exactly when all its
  entries are lists; a map holding a tuple entry (as a constructor argument may) is not
  restored to an equal map.
\<close>

theorem from_state_get_state:
  "from_state (cls m) (get_state m) = m \<longleftrightarrow> wf_odict m"
proof -
  have "from_state (cls m) (get_state m) = m \<longleftrightarrow>
        map (\<lambda>i. LItem (ekey i) (evalue i)) (lst m) = lst m"
    by (cases m) (auto simp: from_state_def get_state_def init_def comp_def)
  then show ?thesis by (simp add: state_roundtrip_list wf_odict_def)
qed

text \<open>The snapshot of a map loaded from a state is that state.\<close>

theorem get_state_load_state: "get_state (load_state m st) = st"
  by (induction st) (auto simp: get_state_def load_state_def)

text \<open>
  The map built from \<open>[("a", "1")]\<close> (a tuple entry) is not equal, under the
  class's own \<open>==\<close>, to the map restored from its own snapshot.
\<close>

theorem tuple_map_snapshot_differs:
  "\<not> odict_eq (from_state ODict (get_state (init ODict (Some [TItem ''a'' ''1''])))) (init ODict (Some [TItem ''a'' ''1'']))"
  by (simp add: odict_eq_def from_state_def get_state_def init_def)

subsection \<open>Wire format\<close>

text \<open>C30: \<open>format()\<close> is the UTF-8 lines \<open>key: value\<close>, each followed by CRLF.\<close>

theorem format_lines:
  "format m = concat (map (\<lambda>i. format_line i @ crlf) (lst m))"
  by (simp add: format_def py_join_terminated comp_def)

text \<open>
  \<open>[("Content-Length", "5"), ("Host", "example.com")]\<close> formats to
  \<open>b"Content-Length: 5\r\nHost: example.com\r\n"\<close>.
\<close>

theorem format_example:
  "format \<lparr>cls = ODict, lst = [LItem ''Content-Length'' ''5'', LItem ''Host'' ''example.com'']\<rparr> =
   utf8_encode (''Content-Length: 5'' @ [CHR 0x0D, CHR 0x0A] @ ''Host: example.com'' @ [CHR 0x0D, CHR 0x0A])"
  by code_simp

subsection \<open>Regular expressions\<close>

text \<open>
  C35: With an engine that never fails, \<open>replace\<close> rewrites the key and the value of
  every entry (each becoming a list entry) and returns the sum of the counts.
\<close>

theorem replace_total:
  "(\<And>s. subn p r s = Inr (f s, g s)) \<Longrightarrow>
   replace subn m p r =
     Inr (m\<lparr>lst := map (\<lambda>i. LItem (f (ekey i)) (f (evalue i))) (lst m)\<rparr>,
          sum_list (map (\<lambda>i. g (ekey i) + g (evalue i)) (lst m)))"
  by (simp add: replace_def replace_loop_total)

theorem replace_total_witness:
  "replace (\<lambda>p r s. Inr (s, 0)) \<lparr>cls = ODict, lst = [LItem ''a'' ''1'', LItem ''b'' ''x'', LItem ''a'' ''2'']\<rparr> ''a'' ''b'' = Inr (\<lparr>cls = ODict, lst = [LItem ''a'' ''1'', LItem ''b'' ''x'', LItem ''a'' ''2'']\<rparr>, 0)"
proof -
  have h: "\<And>s. (\<lambda>p r s. Inr (s, 0 :: nat)) ''a'' ''b'' s = (Inr ((\<lambda>s. s) s, (\<lambda>s. 0) s) :: pyerr + (pystr \<times> nat))"
    by simp
  show ?thesis using replace_total [of "\<lambda>p r s. Inr (s, 0)" "''a''" "''b''" "\<lambda>s. s" "\<lambda>s. 0", OF h]
    by simp
qed

text \<open>
  When \<open>replace\<close> returns, the map keeps its class and its number of entries, and
  all its entries are lists.
\<close>

theorem replace_keeps_shape:
  "replace subn m p r = Inr (m', n) \<Longrightarrow> cls m' = cls m \<and> odict_len m' = odict_len m \<and> wf_odict m'"
  by (rule replace_shape)

theorem replace_keeps_shape_witness:
  "replace (\<lambda>p r s. Inr (s, 0)) \<lparr>cls = ODict, lst = [LItem ''a'' ''1'', LItem ''b'' ''x'', LItem ''a'' ''2'']\<rparr> ''a'' ''b'' = Inr (\<lparr>cls = ODict, lst = [LItem ''a'' ''1'', LItem ''b'' ''x'', LItem ''a'' ''2'']\<rparr>, 0) \<and>
   cls \<lparr>cls = ODict, lst = [LItem ''a'' ''1'', LItem ''b'' ''x'', LItem ''a'' ''2'']\<rparr> = cls \<lparr>cls = ODict, lst = [LItem ''a'' ''1'', LItem ''b'' ''x'', LItem ''a'' ''2'']\<rparr> \<and> odict_len \<lparr>cls = ODict, lst = [LItem ''a'' ''1'', LItem ''b'' ''x'', LItem ''a'' ''2'']\<rparr> = odict_len \<lparr>cls = ODict, lst = [LItem ''a'' ''1'', LItem ''b'' ''x'', LItem ''a'' ''2'']\<rparr> \<and> wf_odict \<lparr>cls = ODict, lst = [LItem ''a'' ''1'', LItem ''b'' ''x'', LItem ''a'' ''2'']\<rparr>"
proof -
  have h: "replace (\<lambda>p r s. Inr (s, 0)) \<lparr>cls = ODict, lst = [LItem ''a'' ''1'', LItem ''b'' ''x'', LItem ''a'' ''2'']\<rparr> ''a'' ''b'' = Inr (\<lparr>cls = ODict, lst = [LItem ''a'' ''1'', LItem ''b'' ''x'', LItem ''a'' ''2'']\<rparr>, 0)"
    by code_simp
  show ?thesis using replace_keeps_shape [OF h] h by simp
qed

text \<open>
  C36: A pattern error of the engine propagates out of \<open>replace\<close> when the map has at
  least one entry.
\<close>

theorem replace_error:
  "(\<And>s. subn p r s = Inl e) \<Longrightarrow> lst m \<noteq> [] \<Longrightarrow> replace subn m p r = Inl e"
  by (cases "lst m") (simp_all add: replace_def safe_subn_def)

theorem replace_error_witness:
  "replace (\<lambda>p r s. Inl ReError) \<lparr>cls = ODict, lst = [LItem ''a'' ''1'', LItem ''b'' ''x'', LItem ''a'' ''2'']\<rparr> ''('' ''x'' = Inl ReError"
  using replace_error [of "\<lambda>p r s. Inl ReError" "''(''" "''x''" ReError "\<lparr>cls = ODict, lst = [LItem ''a'' ''1'', LItem ''b'' ''x'', LItem ''a'' ''2'']\<rparr>"] by simp

text \<open>
  C37: On an empty map \<open>replace\<close> returns 0 whatever the pattern: a malformed pattern
  raises no error there.
\<close>

theorem replace_empty: "replace subn (init c None) p r = Inr (init c None, 0)"
  by (simp add: replace_def init_def)

text \<open>
  C38: With an engine that never fails, \<open>match_re\<close> holds exactly when the pattern
  matches the text \<open>"key: value"\<close> of some entry.
\<close>

theorem match_re_total:
  "(\<And>s. search e s = Inr (P s)) \<Longrightarrow> match_re search m e = Inr (list_ex (\<lambda>i. P (match_text i)) (lst m))"
  by (simp add: match_re_def match_re_loop_total)

theorem match_re_total_witness:
  "match_re (\<lambda>e s. Inr (str_in e s)) \<lparr>cls = ODict, lst = [LItem ''a'' ''1'', LItem ''b'' ''x'', LItem ''a'' ''2'']\<rparr> ''b: x'' = Inr True"
proof -
  have h: "\<And>s. (\<lambda>e s. Inr (str_in e s)) ''b: x'' s = (Inr (str_in ''b: x'' s) :: pyerr + bool)"
    by simp
  show ?thesis using match_re_total [of "\<lambda>e s. Inr (str_in e s)" "''b: x''" "str_in ''b: x''", OF h, of "\<lparr>cls = ODict, lst = [LItem ''a'' ''1'', LItem ''b'' ''x'', LItem ''a'' ''2'']\<rparr>"]
    by code_simp
qed

text \<open>On an empty map \<open>match_re\<close> is false whatever the pattern, malformed or not.\<close>

theorem match_re_empty: "match_re search (init c None) e = Inr False"
  by (simp add: match_re_def init_def)

end
