(* ===== verification/ODictAbs.thy ===== *)
theory ODictAbs
  imports ODict
begin

text \<open>
  The contract of the map, abstractly: a function from converted keys to the list of
  their values (\<open>alpha\<close>), and a step relation over the public mutators with the
  states reachable from a fresh or restored map. The lemmas show that each mutator of
  \<^theory_text>\<open>ODict\<close> refines an update of the abstract multimap, and that every state
  reachable through the class's own methods holds list entries only, so that its
  snapshot restores it exactly.
\<close>

section \<open>Abstraction\<close>

definition alpha :: "odict \<Rightarrow> pystr \<Rightarrow> pystr list" where
  "alpha m nk = values_of (cls m) nk (lst m)"

section \<open>Runs of mutators\<close>

text \<open>
  A step is one call of a mutating method that returns normally: \<open>add\<close>,
  \<open>__setitem__\<close>, \<open>__delitem__\<close>, \<open>extend\<close> with a map whose entries are lists,
  \<open>replace\<close> (with the regular-expression engine \<open>subn\<close>) and \<open>load_state\<close>.
  A map is reachable if it was created empty or by \<open>from_state\<close> and then stepped.
\<close>

inductive step :: "re_subn \<Rightarrow> odict \<Rightarrow> odict \<Rightarrow> bool" for subn where
  step_add: "step subn m (add m k v)"
| step_set: "setitem m k vl = Inr m' \<Longrightarrow> step subn m m'"
| step_del: "step subn m (delitem m k)"
| step_extend: "wf_odict other \<Longrightarrow> step subn m (extend m other)"
| step_replace: "replace subn m p r = Inr (m', n) \<Longrightarrow> step subn m m'"
| step_load: "step subn m (load_state m st)"

inductive reachable :: "re_subn \<Rightarrow> odict \<Rightarrow> bool" for subn where
  reach_empty: "reachable subn (init c None)"
| reach_restored: "reachable subn (from_state c st)"
| reach_step: "reachable subn m \<Longrightarrow> step subn m m' \<Longrightarrow> reachable subn m'"

text \<open>A sequence of \<open>add\<close> calls, in call order.\<close>

fun adds :: "odict \<Rightarrow> (pystr \<times> pystr) list \<Rightarrow> odict" where
  "adds m [] = m"
| "adds m ((k, v) # kvs) = adds (add m k v) kvs"

section \<open>Lemmas\<close>

inductive_cases step_cases: "step subn m m'"

lemma setitem_cls: "setitem m k vl = Inr m' \<Longrightarrow> cls m' = cls m"
  by (auto simp: setitem_def split: pyarg.splits sum.splits prod.splits)

lemma step_cls: "step subn m m' \<Longrightarrow> cls m' = cls m"
  by (erule step_cases)
    (auto simp: add_def delitem_def extend_def load_state_def setitem_cls dest: replace_shape)

lemma step_wf: "step subn m m' \<Longrightarrow> wf_odict m \<Longrightarrow> wf_odict m'"
proof (induction rule: step.induct)
  case (step_add m k v)
  then show ?case by (rule wf_add)
next
  case (step_set m k vl m')
  then show ?case by (blast intro: wf_setitem)
next
  case (step_del m k)
  then show ?case by (rule wf_delitem)
next
  case (step_extend other m)
  then show ?case by (simp add: wf_extend)
next
  case (step_replace m p r m' n)
  then show ?case by (simp add: replace_shape)
next
  case (step_load m st)
  show ?case by (rule wf_load_state)
qed

lemma reachable_wf_odict: "reachable subn m \<Longrightarrow> wf_odict m"
proof (induction rule: reachable.induct)
  case (reach_empty c)
  then show ?case by (rule wf_init_None)
next
  case (reach_restored c st)
  then show ?case by (rule wf_from_state)
next
  case (reach_step m m')
  then show ?case by (blast intro: step_wf)
qed

lemma reachable_example: "reachable subn (add (init ODict None) ''a'' ''1'')"
  by (rule reachable.reach_step [OF reachable.reach_empty step.step_add])

section \<open>Properties\<close>

text \<open>
  C23: A sequence of \<open>add\<close> calls leaves the entries in call order after the existing
  ones.
\<close>

theorem adds_in_call_order: "items (adds m kvs) = items m @ map (\<lambda>(k, v). LItem k v) kvs"
  by (induction m kvs rule: adds.induct) (simp_all add: add_def items_def)

text \<open>
  C24: \<open>m[k] = vs\<close> refines the abstract update that maps the converted key to
  \<open>vs\<close> and leaves every other converted key alone.
\<close>

theorem alpha_setitem:
  "setitem m k (ArgList vs) = Inr m' \<Longrightarrow> alpha m' = (alpha m)(kconv (cls m) k := vs)"
  by (auto simp: alpha_def setitem_list values_of_set_values_ref_same
      values_of_set_values_ref_other)

theorem alpha_setitem_witness:
  "setitem \<lparr>cls = ODict, lst = [LItem ''a'' ''1'']\<rparr> ''a'' (ArgList [''2'']) = Inr \<lparr>cls = ODict, lst = [LItem ''a'' ''2'']\<rparr> \<and>
   alpha \<lparr>cls = ODict, lst = [LItem ''a'' ''2'']\<rparr> = (alpha \<lparr>cls = ODict, lst = [LItem ''a'' ''1'']\<rparr>)(kconv ODict ''a'' := [''2''])"
proof -
  have h: "setitem \<lparr>cls = ODict, lst = [LItem ''a'' ''1'']\<rparr> ''a'' (ArgList [''2'']) = Inr \<lparr>cls = ODict, lst = [LItem ''a'' ''2'']\<rparr>"
    by code_simp
  show ?thesis using alpha_setitem [OF h] h by simp
qed

text \<open>C25: \<open>add\<close> refines appending the value to the values of the converted key.\<close>

theorem alpha_add:
  "alpha (add m k v) = (alpha m)(kconv (cls m) k := alpha m (kconv (cls m) k) @ [v])"
  by (auto simp: alpha_def odict_simps)

text \<open>\<open>del m[k]\<close> refines mapping the converted key to no values.\<close>

theorem alpha_delitem: "alpha (delitem m k) = (alpha m)(kconv (cls m) k := [])"
  by (auto simp: alpha_def odict_simps)

text \<open>
  C26: \<open>extend\<close> refines appending, key by key, the other map's values, read with the
  key conversion of the extended map.
\<close>

theorem alpha_extend:
  "alpha (extend m other) = (\<lambda>nk. alpha m nk @ values_of (cls m) nk (lst other))"
  by (simp add: fun_eq_iff alpha_def odict_simps)

text \<open>
  C27: Every map created empty or from a snapshot and then changed only by the class's
  mutators (extending only by such maps) holds list entries only.
\<close>

theorem reachable_items_are_lists:
  "reachable subn m \<Longrightarrow> list_all is_litem (items m)"
  using reachable_wf_odict by (simp add: wf_odict_def items_def)

theorem reachable_items_are_lists_witness:
  "reachable (\<lambda>p r s. Inr (s, 0)) (add (init ODict None) ''a'' ''1'') \<and>
   list_all is_litem (items (add (init ODict None) ''a'' ''1''))"
  using reachable_example reachable_items_are_lists [OF reachable_example] by simp

text \<open>
  C28: For every such map, \<open>from_state(m.get_state())\<close> gives back the map itself,
  class included.
\<close>

theorem reachable_snapshot_roundtrip:
  "reachable subn m \<Longrightarrow> from_state (cls m) (get_state m) = m"
proof -
  assume "reachable subn m"
  then have "list_all is_litem (lst m)"
    using reachable_wf_odict by (simp add: wf_odict_def)
  then have "map (\<lambda>i. LItem (ekey i) (evalue i)) (lst m) = lst m"
    by (simp add: state_roundtrip_list)
  then show ?thesis
    by (cases m) (simp add: from_state_def get_state_def init_def comp_def)
qed

theorem reachable_snapshot_roundtrip_witness:
  "reachable (\<lambda>p r s. Inr (s, 0)) (add (init ODict None) ''a'' ''1'') \<and>
   from_state ODict (get_state (add (init ODict None) ''a'' ''1'')) = add (init ODict None) ''a'' ''1''"
  using reachable_example reachable_snapshot_roundtrip [OF reachable_example]
  by (simp add: add_def init_def)

end
