(* ===== verification/Wire.thy ===== *)
theory Wire
  imports ODict
begin

text \<open>
  The wire format written by \<open>ODict.format\<close>: lines \<open>key: value\<close>, each ended by
  CRLF, in UTF-8. The parser below is the inverse that an HTTP reader applies (it is
  not part of the module): decode the bytes, cut the text at each CRLF, cut each line at
  its first colon, which must be followed by a space. \<open>format\<close> is inverted by it
  exactly when no key holds a colon and no key or value holds CR or LF; the module does
  not check this, and a value with an embedded CRLF reads back as two headers.
\<close>

definition CR :: char where "CR = CHR 0x0D"
definition LF :: char where "LF = CHR 0x0A"

definition header_safe_key :: "pystr \<Rightarrow> bool" where
  "header_safe_key k \<longleftrightarrow> list_all (\<lambda>c. c \<noteq> CHR '':'' \<and> c \<noteq> CR \<and> c \<noteq> LF) k"

definition header_safe_value :: "pystr \<Rightarrow> bool" where
  "header_safe_value v \<longleftrightarrow> list_all (\<lambda>c. c \<noteq> CR \<and> c \<noteq> LF) v"

definition header_safe :: "odict \<Rightarrow> bool" where
  "header_safe m \<longleftrightarrow> list_all (\<lambda>i. header_safe_key (ekey i) \<and> header_safe_value (evalue i)) (lst m)"

definition split_header_line :: "pystr \<Rightarrow> (pystr \<times> pystr) option" where
  "split_header_line line =
     (case dropWhile (\<lambda>c. c \<noteq> CHR '':'') line of
        c1 # c2 # v \<Rightarrow> if c1 = CHR '':'' \<and> c2 = CHR '' '' then Some (takeWhile (\<lambda>c. c \<noteq> CHR '':'') line, v) else None
      | _ \<Rightarrow> None)"

text \<open>\<open>parse_lines line s\<close> reads \<open>s\<close> with \<open>line\<close> the text of the current line so far.\<close>

fun parse_lines :: "pystr \<Rightarrow> pystr \<Rightarrow> (pystr \<times> pystr) list option" where
  "parse_lines line [] = (if line = [] then Some [] else None)"
| "parse_lines line (c # cs) =
     (if c = CR then
        (case cs of
           d # rest \<Rightarrow>
             if d = LF then
               (case split_header_line line of
                  None \<Rightarrow> None
                | Some kv \<Rightarrow> map_option (Cons kv) (parse_lines [] rest))
             else None
         | [] \<Rightarrow> None)
      else parse_lines (line @ [c]) cs)"

definition parse_header_block :: "pybytes \<Rightarrow> (pystr \<times> pystr) list option" where
  "parse_header_block b = (case utf8_decode b of None \<Rightarrow> None | Some s \<Rightarrow> parse_lines [] s)"

definition header_text :: "entry \<Rightarrow> pystr" where
  "header_text i = ekey i @ CHR '':'' # CHR '' '' # evalue i @ [CR, LF]"

section \<open>Lemmas\<close>

lemma utf8_colon_sp: "utf8_encode [CHR '':'', CHR '' ''] = colon_sp"
  by (simp add: utf8_encode_def utf8_char_def colon_sp_def)

lemma utf8_crlf: "utf8_encode [CR, LF] = crlf"
  by (simp add: utf8_encode_def utf8_char_def crlf_def CR_def LF_def)

lemma format_line_text: "format_line i @ crlf = utf8_encode (header_text i)"
proof -
  have "utf8_encode (header_text i) =
        utf8_encode (ekey i) @ utf8_encode [CHR '':'', CHR '' ''] @ utf8_encode (evalue i) @ utf8_encode [CR, LF]"
    by (simp add: header_text_def flip: utf8_encode_append)
  then show ?thesis
    by (simp add: utf8_colon_sp utf8_crlf format_line_def str_to_bytes_def)
qed

lemma format_text: "format m = utf8_encode (concat (map header_text (lst m)))"
proof -
  have "format m = concat (map (\<lambda>i. format_line i @ crlf) (lst m))"
    by (simp add: format_def py_join_terminated comp_def)
  also have "\<dots> = concat (map (\<lambda>i. utf8_encode (header_text i)) (lst m))"
    by (simp add: format_line_text)
  also have "\<dots> = utf8_encode (concat (map header_text (lst m)))"
    by (simp add: utf8_encode_concat comp_def)
  finally show ?thesis .
qed

lemma parse_lines_upto_crlf:
  "\<forall>c\<in>set xs. c \<noteq> CR \<Longrightarrow>
   parse_lines line (xs @ CR # LF # rest) =
     (case split_header_line (line @ xs) of None \<Rightarrow> None | Some kv \<Rightarrow> map_option (Cons kv) (parse_lines [] rest))"
  by (induction xs arbitrary: line) simp_all

lemma parse_lines_line:
  assumes "header_safe_key k" and "header_safe_value v"
  shows "parse_lines [] (k @ CHR '':'' # CHR '' '' # v @ CR # LF # rest) = map_option (Cons (k, v)) (parse_lines [] rest)"
proof -
  have noCR: "\<forall>c\<in>set (k @ CHR '':'' # CHR '' '' # v). c \<noteq> CR"
    using assms by (auto simp: header_safe_key_def header_safe_value_def list_all_iff CR_def)
  have noColon: "\<forall>c\<in>set k. c \<noteq> CHR '':''"
    using assms by (auto simp: header_safe_key_def list_all_iff)
  have split: "split_header_line (k @ CHR '':'' # CHR '' '' # v) = Some (k, v)"
    using noColon by (simp add: split_header_line_def takeWhile_append2 dropWhile_append2)
  show ?thesis
    using parse_lines_upto_crlf [OF noCR, of "[]" rest] split by simp
qed

lemma parse_lines_concat:
  "list_all (\<lambda>i. header_safe_key (ekey i) \<and> header_safe_value (evalue i)) xs \<Longrightarrow>
   parse_lines [] (concat (map header_text xs)) = Some (map (\<lambda>i. (ekey i, evalue i)) xs)"
proof (induction xs)
  case Nil
  then show ?case by simp
next
  case (Cons i rest)
  then show ?case by (simp add: header_text_def parse_lines_line)
qed

section \<open>Properties\<close>

text \<open>
  C33: A map whose keys hold no colon and whose keys and values hold no CR or LF is
  read back from its \<open>format()\<close> bytes as exactly its snapshot: the same keys and
  values in the same order.
\<close>

theorem format_parse_roundtrip:
  "header_safe m \<Longrightarrow> parse_header_block (format m) = Some (get_state m)"
  by (simp add: parse_header_block_def format_text utf8_roundtrip parse_lines_concat
      header_safe_def get_state_def)

theorem format_parse_roundtrip_witness:
  "header_safe \<lparr>cls = ODict, lst = [LItem ''Host'' ''example.com'']\<rparr> \<and>
   parse_header_block (format \<lparr>cls = ODict, lst = [LItem ''Host'' ''example.com'']\<rparr>) = Some [(''Host'', ''example.com'')]"
proof -
  have h: "header_safe \<lparr>cls = ODict, lst = [LItem ''Host'' ''example.com'']\<rparr>"
    by (simp add: header_safe_def header_safe_key_def header_safe_value_def CR_def LF_def)
  show ?thesis using format_parse_roundtrip [OF h] h by (simp add: get_state_def)
qed

lemma format_line_split:
  "format_line (LItem k (v @ [CR, LF] @ k2 @ '': '' @ v2)) =
   format_line (LItem k v) @ crlf @ format_line (LItem k2 v2)"
  by (simp only: format_line_def str_to_bytes_def utf8_encode_append utf8_crlf utf8_colon_sp
      ekey.simps evalue.simps append_assoc)

lemma format_concat: "format m = concat (map (\<lambda>i. format_line i @ crlf) (lst m))"
  by (simp add: format_def py_join_terminated comp_def)

text \<open>
  C34: \<open>format()\<close> does not check its input: in any map, an entry whose value holds
  CRLF followed by \<open>k2: v2\<close> formats to the same bytes as that entry cut in two, so two
  maps that differ under \<open>__eq__\<close> share one wire form.
\<close>

theorem format_not_injective:
  "format \<lparr>cls = c, lst = xs @ LItem k (v @ [CR, LF] @ k2 @ '': '' @ v2) # ys\<rparr> =
     format \<lparr>cls = c, lst = xs @ LItem k v # LItem k2 v2 # ys\<rparr> \<and>
   odict_ne \<lparr>cls = c, lst = xs @ LItem k (v @ [CR, LF] @ k2 @ '': '' @ v2) # ys\<rparr>
     \<lparr>cls = c, lst = xs @ LItem k v # LItem k2 v2 # ys\<rparr>"
proof
  show "format \<lparr>cls = c, lst = xs @ LItem k (v @ [CR, LF] @ k2 @ '': '' @ v2) # ys\<rparr> =
     format \<lparr>cls = c, lst = xs @ LItem k v # LItem k2 v2 # ys\<rparr>"
    by (simp only: format_concat odict.select_convs map_append list.map concat_append concat.simps
        format_line_split append_assoc)
  have "length (xs @ LItem k (v @ [CR, LF] @ k2 @ '': '' @ v2) # ys) \<noteq>
      length (xs @ LItem k v # LItem k2 v2 # ys)" by simp
  then show "odict_ne \<lparr>cls = c, lst = xs @ LItem k (v @ [CR, LF] @ k2 @ '': '' @ v2) # ys\<rparr>
     \<lparr>cls = c, lst = xs @ LItem k v # LItem k2 v2 # ys\<rparr>"
    unfolding odict_ne_def odict_eq_def odict.select_convs by (metis)
qed

text \<open>
  The bytes \<open>str_to_bytes\<close> (UTF-8) makes of a string decode back to it, and
  take between one and two bytes per character.
\<close>

theorem str_to_bytes_roundtrip:
  "utf8_decode (str_to_bytes s) = Some s \<and>
   length s \<le> length (str_to_bytes s) \<and> length (str_to_bytes s) \<le> 2 * length s"
proof (intro conjI)
  show "utf8_decode (str_to_bytes s) = Some s"
    by (simp add: str_to_bytes_def utf8_roundtrip)
  show "length s \<le> length (str_to_bytes s)"
    by (induction s) (auto simp: str_to_bytes_def utf8_encode_def utf8_char_def Let_def)
  show "length (str_to_bytes s) \<le> 2 * length s"
    by (induction s) (auto simp: str_to_bytes_def utf8_encode_def utf8_char_def Let_def)
qed

end
