(* ===== verification/Regex.thy ===== *)
theory Regex
  imports ODict
begin

text \<open>
  An implementation of the regular-expression interface that \<^theory_text>\<open>ODict\<close> takes as a
  parameter (\<open>re_search\<close>, \<open>re_subn\<close>), for the fragment of Python's \<open>re\<close> where
  the pattern has no metacharacter and the replacement no backslash. On that fragment a
  pattern matches exactly its own text, \<open>re.search\<close> is the substring test and
  \<open>re.subn\<close> replaces the leftmost non-overlapping occurrences from left to right; the
  empty pattern matches at every position, once more than the string has characters.
  The engine raises no \<open>re.error\<close>: no pattern of the fragment is malformed.
\<close>

definition re_metachars :: "char list" where
  "re_metachars = ''.^$*+?{}[]()'' @ [CHR 0x5C, CHR 0x7C]"

definition literal_pattern :: "pystr \<Rightarrow> bool" where
  "literal_pattern p \<longleftrightarrow> list_all (\<lambda>c. c \<notin> set re_metachars) p"

definition literal_repl :: "pystr \<Rightarrow> bool" where
  "literal_repl r \<longleftrightarrow> CHR 0x5C \<notin> set r"

function lit_sub :: "pystr \<Rightarrow> pystr \<Rightarrow> pystr \<Rightarrow> pystr \<times> nat" where
  "lit_sub p r s =
     (if p = [] then (concat (map (\<lambda>c. r @ [c]) s) @ r, Suc (length s))
      else if take (length p) s = p then
        (let (t, n) = lit_sub p r (drop (length p) s) in (r @ t, Suc n))
      else
        (case s of
           [] \<Rightarrow> ([], 0)
         | c # cs \<Rightarrow> (let (t, n) = lit_sub p r cs in (c # t, n))))"
  by pat_completeness auto

termination lit_sub
proof (relation "measure (\<lambda>(p, r, s). length s)")
  fix p r s :: pystr
  assume "p \<noteq> []" and "take (length p) s = p"
  then have "length p \<le> length s"
    by (metis length_take min.absorb_iff2 nat_le_linear)
  moreover have "0 < length p"
    using \<open>p \<noteq> []\<close> by simp
  ultimately have "length s - length p < length s"
    by arith
  then show "((p, r, drop (length p) s), p, r, s) \<in> measure (\<lambda>(p, r, s). length s)"
    by simp
qed auto

declare lit_sub.simps [simp del]

definition lit_search :: re_search where
  "lit_search p s = Inr (str_in p s)"

definition lit_subn :: re_subn where
  "lit_subn p r s = Inr (lit_sub p r s)"

section \<open>Lemmas\<close>

lemma lit_sub_no_occurrence:
  "p \<noteq> [] \<Longrightarrow> \<not> sublist p s \<Longrightarrow> lit_sub p r s = (s, 0)"
proof (induction s)
  case Nil
  then show ?case by (simp add: lit_sub.simps)
next
  case (Cons c cs)
  have "take (length p) (c # cs) \<noteq> p"
    using Cons.prems by (metis sublist_take)
  moreover have "\<not> sublist p cs"
    using Cons.prems by (auto simp: sublist_Cons_right)
  ultimately show ?case
    using Cons by (simp add: lit_sub.simps [of p r "c # cs"])
qed

lemma lit_sub_count_zero_iff:
  "p \<noteq> [] \<Longrightarrow> snd (lit_sub p r s) = 0 \<longleftrightarrow> \<not> sublist p s"
proof (induction s)
  case Nil
  then show ?case by (simp add: lit_sub.simps)
next
  case (Cons c cs)
  show ?case
  proof (cases "take (length p) (c # cs) = p")
    case True
    then have "sublist p (c # cs)"
      by (metis take_is_prefix prefix_imp_sublist)
    with True Cons.prems show ?thesis
      by (simp add: lit_sub.simps [of p r "c # cs"] split: prod.splits)
  next
    case False
    then have "sublist p (c # cs) \<longleftrightarrow> sublist p cs"
      by (auto simp: sublist_Cons_right take_eq_iff_prefix)
    with False Cons show ?thesis
      by (simp add: lit_sub.simps [of p r "c # cs"] split_def Let_def)
  qed
qed


section \<open>Properties\<close>

text \<open>
  \<open>replace("a", "b")\<close> on \<open>[("a", "a")]\<close> makes two substitutions, one in the
  key and one in the value, and leaves \<open>[("b", "b")]\<close>.
\<close>

theorem replace_example:
  "replace lit_subn \<lparr>cls = ODict, lst = [LItem ''a'' ''a'']\<rparr> ''a'' ''b'' =
     Inr (\<lparr>cls = ODict, lst = [LItem ''b'' ''b'']\<rparr>, 2)"
  by code_simp

end
