(* ===== verification/Heap.thy ===== *)
theory Heap
  imports ODict
begin

text \<open>
  The methods of \<^verbatim>\<open>odict.py\<close> over an explicit store of Python objects, for the
  properties that depend on object identity: which lists a map shares with its caller,
  with its copies and with other maps. The store holds sequences (lists and tuples of
  values) and \<open>ODict\<close> instances (their class and the reference of their \<open>lst\<close>);
  keys and values are strings, which are immutable and carried by value. Each method
  takes the store and the receiver's reference and returns the new store; \<open>view\<close>
  reads an instance back as a value of \<^theory_text>\<open>ODict\<close>. The \<open>for\<close> loop of
  \<open>__setitem__\<close> walks the live list by index, as CPython's list iterator does, so
  that a value list that is the map's own list is popped under the loop; it and the
  \<open>while\<close> loop run on fuel, which \<^theory_text>\<open>HeapSim\<close> shows to be enough when the
  value list is not part of the map. The last sections hold the footprint of an instance,
  the frame relation \<open>unchanged_outside\<close>, a caller's sequence of calls
  (\<open>run_ops\<close>), and the lemmas on the store shared by the simulation and frame
  theories.
\<close>

type_synonym ref = nat

datatype seqkind = KList | KTuple

datatype pyval = VStr pystr | VRef ref

datatype pyobj = OSeq seqkind "pyval list" | OInst odict_class ref

record heap =
  objs :: "pyobj list"

section \<open>Store primitives\<close>

definition deref :: "heap \<Rightarrow> ref \<Rightarrow> pyobj option" where
  "deref h r = (if r < length (objs h) then Some (objs h ! r) else None)"

definition alloc :: "heap \<Rightarrow> pyobj \<Rightarrow> ref \<times> heap" where
  "alloc h x = (length (objs h), h\<lparr>objs := objs h @ [x]\<rparr>)"

definition store_obj :: "heap \<Rightarrow> ref \<Rightarrow> pyobj \<Rightarrow> heap" where
  "store_obj h r x = h\<lparr>objs := (objs h)[r := x]\<rparr>"

definition h_seq :: "heap \<Rightarrow> ref \<Rightarrow> pyval list option" where
  "h_seq h r = (case deref h r of Some (OSeq kd xs) \<Rightarrow> Some xs | _ \<Rightarrow> None)"

definition seq_len :: "heap \<Rightarrow> ref \<Rightarrow> nat" where
  "seq_len h r = (case h_seq h r of Some xs \<Rightarrow> length xs | None \<Rightarrow> 0)"

text \<open>The attribute \<open>self.lst\<close> of an instance.\<close>

definition h_lst :: "heap \<Rightarrow> ref \<Rightarrow> pyerr + (odict_class \<times> ref)" where
  "h_lst h self = (case deref h self of Some (OInst c l) \<Rightarrow> Inr (c, l) | _ \<Rightarrow> Inl TypeError)"

text \<open>The truth of an object: a sequence is true when non-empty, an instance when its
  \<open>__len__\<close> is non-zero.\<close>

definition h_truthy :: "heap \<Rightarrow> ref \<Rightarrow> bool" where
  "h_truthy h r =
     (case deref h r of
        Some (OSeq kd xs) \<Rightarrow> xs \<noteq> []
      | Some (OInst c l) \<Rightarrow> (case h_seq h l of Some ys \<Rightarrow> ys \<noteq> [] | None \<Rightarrow> True)
      | None \<Rightarrow> True)"

text \<open>\<open>x.pop(0)\<close> and \<open>x.append(v)\<close>: lists only; a tuple or an instance has no
  such method.\<close>

definition h_pop0 :: "heap \<Rightarrow> ref \<Rightarrow> pyerr + (pyval \<times> heap)" where
  "h_pop0 h r =
     (case deref h r of
        Some (OSeq KList (v # vs)) \<Rightarrow> Inr (v, store_obj h r (OSeq KList vs))
      | Some (OSeq KList []) \<Rightarrow> Inl IndexError
      | _ \<Rightarrow> Inl AttributeError)"

definition h_append :: "heap \<Rightarrow> ref \<Rightarrow> pyval \<Rightarrow> pyerr + heap" where
  "h_append h r x =
     (case deref h r of
        Some (OSeq KList xs) \<Rightarrow> Inr (store_obj h r (OSeq KList (xs @ [x])))
      | _ \<Rightarrow> Inl AttributeError)"

text \<open>The list display \<open>[k, v]\<close>.\<close>

definition h_new_pair :: "heap \<Rightarrow> pystr \<Rightarrow> pyval \<Rightarrow> ref \<times> heap" where
  "h_new_pair h k v = alloc h (OSeq KList [VStr k, v])"

text \<open>\<open>i[0]\<close> and \<open>i[1]\<close> of an element of \<open>self.lst\<close>, as strings: a
  sequence indexed out of range raises \<open>IndexError\<close>, and an element whose key or value
  is not a string (an object Python would compare or format differently) is outside the
  model and gives \<open>TypeError\<close>.\<close>

definition h_key :: "heap \<Rightarrow> pyval \<Rightarrow> pyerr + pystr" where
  "h_key h i =
     (case i of
        VRef e \<Rightarrow>
          (case h_seq h e of
             Some (VStr k # _) \<Rightarrow> Inr k
           | Some [] \<Rightarrow> Inl IndexError
           | _ \<Rightarrow> Inl TypeError)
      | VStr s \<Rightarrow> (case s of c # _ \<Rightarrow> Inr [c] | [] \<Rightarrow> Inl IndexError))"

definition h_val :: "heap \<Rightarrow> pyval \<Rightarrow> pyerr + pystr" where
  "h_val h i =
     (case i of
        VRef e \<Rightarrow>
          (case h_seq h e of
             Some (_ # VStr v # _) \<Rightarrow> Inr v
           | Some [] \<Rightarrow> Inl IndexError
           | Some [_] \<Rightarrow> Inl IndexError
           | _ \<Rightarrow> Inl TypeError)
      | VStr s \<Rightarrow> (if 2 \<le> length s then Inr [s ! 1] else Inl IndexError))"

section \<open>Reading an instance as a value\<close>

fun read_entry :: "heap \<Rightarrow> pyval \<Rightarrow> entry option" where
  "read_entry h (VRef e) =
     (case deref h e of
        Some (OSeq KList [VStr k, VStr v]) \<Rightarrow> Some (LItem k v)
      | Some (OSeq KTuple [VStr k, VStr v]) \<Rightarrow> Some (TItem k v)
      | _ \<Rightarrow> None)"
| "read_entry h (VStr s) = None"

definition view :: "heap \<Rightarrow> ref \<Rightarrow> odict option" where
  "view h self =
     (case h_lst h self of
        Inl e \<Rightarrow> None
      | Inr (c, l) \<Rightarrow>
          (case deref h l of
             Some (OSeq KList es) \<Rightarrow> map_option (\<lambda>xs. \<lparr>cls = c, lst = xs\<rparr>) (those (map (read_entry h) es))
           | _ \<Rightarrow> None))"

section \<open>The methods on the store\<close>

text \<open>\<open>__init__\<close>: \<open>self.lst = lst or []\<close> keeps the caller's sequence when it is
  non-empty and makes a new list otherwise.\<close>

definition h_init :: "heap \<Rightarrow> odict_class \<Rightarrow> ref option \<Rightarrow> ref \<times> heap" where
  "h_init h c arg =
     (case arg of
        Some r \<Rightarrow>
          if h_truthy h r then alloc h (OInst c r)
          else (let (l, h1) = alloc h (OSeq KList []) in alloc h1 (OInst c l))
      | None \<Rightarrow> (let (l, h1) = alloc h (OSeq KList []) in alloc h1 (OInst c l)))"

definition h_add :: "heap \<Rightarrow> ref \<Rightarrow> pystr \<Rightarrow> pystr \<Rightarrow> pyerr + heap" where
  "h_add h self key value =
     (case h_lst h self of
        Inl e \<Rightarrow> Inl e
      | Inr (c, l) \<Rightarrow> (let (e, h1) = h_new_pair h key (VStr value) in h_append h1 l (VRef e)))"

text \<open>The \<open>for i in self.lst\<close> loop of \<open>__setitem__\<close>, at index \<open>i\<close> of the live list
  \<open>l\<close>, popping from the value list \<open>r\<close> and appending to the new list \<open>nl\<close>.\<close>

fun h_setitem_walk ::
  "nat \<Rightarrow> heap \<Rightarrow> odict_class \<Rightarrow> pystr \<Rightarrow> pystr \<Rightarrow> ref \<Rightarrow> nat \<Rightarrow> ref \<Rightarrow> ref \<Rightarrow> (pyerr + heap) option"
where
  "h_setitem_walk 0 h c k kc l i r nl = None"
| "h_setitem_walk (Suc n) h c k kc l i r nl =
     (case h_seq h l of
        None \<Rightarrow> Some (Inl TypeError)
      | Some xs \<Rightarrow>
          if length xs \<le> i then Some (Inr h)
          else
            (case h_key h (xs ! i) of
               Inl e \<Rightarrow> Some (Inl e)
             | Inr ik \<Rightarrow>
                 if kconv c ik = kc then
                   (if h_truthy h r then
                      (case h_pop0 h r of
                         Inl e \<Rightarrow> Some (Inl e)
                       | Inr (v, h1) \<Rightarrow>
                           (let (e, h2) = h_new_pair h1 k v in
                            case h_append h2 nl (VRef e) of
                              Inl err \<Rightarrow> Some (Inl err)
                            | Inr h3 \<Rightarrow> h_setitem_walk n h3 c k kc l (Suc i) r nl))
                    else h_setitem_walk n h c k kc l (Suc i) r nl)
                 else
                   (case h_append h nl (xs ! i) of
                      Inl err \<Rightarrow> Some (Inl err)
                    | Inr h3 \<Rightarrow> h_setitem_walk n h3 c k kc l (Suc i) r nl)))"

text \<open>The \<open>while valuelist\<close> loop.\<close>

fun h_setitem_tail :: "nat \<Rightarrow> heap \<Rightarrow> pystr \<Rightarrow> ref \<Rightarrow> ref \<Rightarrow> (pyerr + heap) option" where
  "h_setitem_tail 0 h k r nl = None"
| "h_setitem_tail (Suc n) h k r nl =
     (if h_truthy h r then
        (case h_pop0 h r of
           Inl e \<Rightarrow> Some (Inl e)
         | Inr (v, h1) \<Rightarrow>
             (let (e, h2) = h_new_pair h1 k v in
              case h_append h2 nl (VRef e) of
                Inl err \<Rightarrow> Some (Inl err)
              | Inr h3 \<Rightarrow> h_setitem_tail n h3 k r nl))
      else Some (Inr h))"

definition h_setitem :: "heap \<Rightarrow> ref \<Rightarrow> pystr \<Rightarrow> pyval \<Rightarrow> (pyerr + heap) option" where
  "h_setitem h self k valuelist =
     (case valuelist of
        VStr s \<Rightarrow> Some (Inl ValueError)
      | VRef r \<Rightarrow>
          (case h_lst h self of
             Inl e \<Rightarrow> Some (Inl e)
           | Inr (c, l) \<Rightarrow>
               (let (nl, h1) = alloc h (OSeq KList []) in
                case h_setitem_walk (Suc (seq_len h1 l)) h1 c k (kconv c k) l 0 r nl of
                  None \<Rightarrow> None
                | Some (Inl e) \<Rightarrow> Some (Inl e)
                | Some (Inr h2) \<Rightarrow>
                    (case h_setitem_tail (Suc (seq_len h2 r)) h2 k r nl of
                       None \<Rightarrow> None
                     | Some (Inl e) \<Rightarrow> Some (Inl e)
                     | Some (Inr h3) \<Rightarrow> Some (Inr (store_obj h3 self (OInst c nl)))))))"

text \<open>\<open>_filter_lst\<close> over the elements of \<open>self.lst\<close>, and \<open>__delitem__\<close>, which
  binds \<open>self.lst\<close> to the new list.\<close>

fun h_filter_loop :: "heap \<Rightarrow> odict_class \<Rightarrow> pystr \<Rightarrow> pyval list \<Rightarrow> pyval list \<Rightarrow> pyerr + pyval list" where
  "h_filter_loop h c k [] new = Inr new"
| "h_filter_loop h c k (i # is) new =
     (case h_key h i of
        Inl e \<Rightarrow> Inl e
      | Inr ik \<Rightarrow> h_filter_loop h c k is (if kconv c ik \<noteq> k then new @ [i] else new))"

definition h_delitem :: "heap \<Rightarrow> ref \<Rightarrow> pystr \<Rightarrow> pyerr + heap" where
  "h_delitem h self k =
     (case h_lst h self of
        Inl e \<Rightarrow> Inl e
      | Inr (c, l) \<Rightarrow>
          (case h_seq h l of
             None \<Rightarrow> Inl TypeError
           | Some xs \<Rightarrow>
               (case h_filter_loop h c (kconv c k) xs [] of
                  Inl e \<Rightarrow> Inl e
                | Inr ys \<Rightarrow> (let (nl, h1) = alloc h (OSeq KList ys) in Inr (store_obj h1 self (OInst c nl))))))"

text \<open>\<open>extend\<close>: \<open>self.lst.extend(other.lst)\<close> appends the other map's elements (the
  same entry objects) to the receiver's list in place.\<close>

definition h_extend :: "heap \<Rightarrow> ref \<Rightarrow> ref \<Rightarrow> pyerr + heap" where
  "h_extend h self other =
     (case h_lst h self of
        Inl e \<Rightarrow> Inl e
      | Inr (c, l) \<Rightarrow>
          (case deref h l of
             Some (OSeq KList xs) \<Rightarrow>
               (case h_lst h other of
                  Inl e \<Rightarrow> Inl e
                | Inr (c', l') \<Rightarrow>
                    (case h_seq h l' of
                       Some ys \<Rightarrow> Inr (store_obj h l (OSeq KList (xs @ ys)))
                     | None \<Rightarrow> Inl TypeError))
           | _ \<Rightarrow> Inl AttributeError))"

text \<open>\<open>items\<close>: \<open>self.lst[:]\<close>, a new list holding the same entry objects (a tuple's
  slice is the tuple itself).\<close>

definition h_items :: "heap \<Rightarrow> ref \<Rightarrow> pyerr + (ref \<times> heap)" where
  "h_items h self =
     (case h_lst h self of
        Inl e \<Rightarrow> Inl e
      | Inr (c, l) \<Rightarrow>
          (case deref h l of
             Some (OSeq KList xs) \<Rightarrow> Inr (alloc h (OSeq KList xs))
           | Some (OSeq KTuple xs) \<Rightarrow> Inr (l, h)
           | _ \<Rightarrow> Inl TypeError))"

text \<open>
  \<open>copy\<close>: \<open>copy.deepcopy(self.lst)\<close>, then a new instance of the same class over the
  copy. The deep copy makes a new list for every list entry, returns a tuple of strings
  itself (its copy would be equal and it cannot change), and copies an entry that occurs
  several times once (its memo). Entries holding anything but strings are outside the
  model (\<open>TypeError\<close>).
\<close>

definition all_str :: "pyval list \<Rightarrow> bool" where
  "all_str xs \<longleftrightarrow> list_all (\<lambda>x. case x of VStr s \<Rightarrow> True | VRef r \<Rightarrow> False) xs"

definition h_copy_entry :: "heap \<Rightarrow> (ref \<times> ref) list \<Rightarrow> ref \<Rightarrow> pyerr + (ref \<times> (ref \<times> ref) list \<times> heap)" where
  "h_copy_entry h memo e =
     (case map_of memo e of
        Some e' \<Rightarrow> Inr (e', memo, h)
      | None \<Rightarrow>
          (case deref h e of
             Some (OSeq KList vs) \<Rightarrow>
               if all_str vs then (let (e', h1) = alloc h (OSeq KList vs) in Inr (e', (e, e') # memo, h1))
               else Inl TypeError
           | Some (OSeq KTuple vs) \<Rightarrow>
               if all_str vs then Inr (e, (e, e) # memo, h) else Inl TypeError
           | _ \<Rightarrow> Inl TypeError))"

fun h_copy_entries ::
  "heap \<Rightarrow> (ref \<times> ref) list \<Rightarrow> pyval list \<Rightarrow> pyerr + (pyval list \<times> (ref \<times> ref) list \<times> heap)"
where
  "h_copy_entries h memo [] = Inr ([], memo, h)"
| "h_copy_entries h memo (VStr s # xs) =
     (case h_copy_entries h memo xs of
        Inl e \<Rightarrow> Inl e
      | Inr (ys, memo', h') \<Rightarrow> Inr (VStr s # ys, memo', h'))"
| "h_copy_entries h memo (VRef e # xs) =
     (case h_copy_entry h memo e of
        Inl err \<Rightarrow> Inl err
      | Inr (e', memo1, h1) \<Rightarrow>
          (case h_copy_entries h1 memo1 xs of
             Inl err \<Rightarrow> Inl err
           | Inr (ys, memo', h') \<Rightarrow> Inr (VRef e' # ys, memo', h')))"

definition h_copy :: "heap \<Rightarrow> ref \<Rightarrow> pyerr + (ref \<times> heap)" where
  "h_copy h self =
     (case h_lst h self of
        Inl e \<Rightarrow> Inl e
      | Inr (c, l) \<Rightarrow>
          (case deref h l of
             Some (OSeq KList xs) \<Rightarrow>
               (case h_copy_entries h [] xs of
                  Inl e \<Rightarrow> Inl e
                | Inr (ys, memo, h1) \<Rightarrow>
                    (let (l', h2) = alloc h1 (OSeq KList ys) in Inr (h_init h2 c (Some l'))))
           | Some (OSeq KTuple xs) \<Rightarrow>
               (case h_copy_entries h [] xs of
                  Inl e \<Rightarrow> Inl e
                | Inr (ys, memo, h1) \<Rightarrow>
                    if ys = xs then Inr (h_init h1 c (Some l))
                    else (let (l', h2) = alloc h1 (OSeq KTuple ys) in Inr (h_init h2 c (Some l'))))
           | _ \<Rightarrow> Inl TypeError))"

text \<open>New entry lists \<open>[k, v]\<close> for a list of pairs, and the list holding them.\<close>

fun h_alloc_pairs :: "heap \<Rightarrow> (pystr \<times> pystr) list \<Rightarrow> ref list \<times> heap" where
  "h_alloc_pairs h [] = ([], h)"
| "h_alloc_pairs h ((k, v) # kvs) =
     (let (e, h1) = h_new_pair h k (VStr v); (es, h2) = h_alloc_pairs h1 kvs in (e # es, h2))"

definition h_new_entry_list :: "heap \<Rightarrow> (pystr \<times> pystr) list \<Rightarrow> ref \<times> heap" where
  "h_new_entry_list h kvs = (let (es, h1) = h_alloc_pairs h kvs in alloc h1 (OSeq KList (map VRef es)))"

text \<open>\<open>replace\<close>: the substitutions on \<open>i[0]\<close> and \<open>i[1]\<close> of each element, then a
  new list of new entries bound to \<open>self.lst\<close>; an error leaves \<open>self.lst\<close> as it was.\<close>

fun h_replace_loop ::
  "re_subn \<Rightarrow> heap \<Rightarrow> pystr \<Rightarrow> pystr \<Rightarrow> pyval list \<Rightarrow> (pystr \<times> pystr) list \<Rightarrow> nat \<Rightarrow>
   pyerr + ((pystr \<times> pystr) list \<times> nat)"
where
  "h_replace_loop subn h pattern repl [] nlst count = Inr (nlst, count)"
| "h_replace_loop subn h pattern repl (i # is) nlst count =
     (case h_key h i of
        Inl e \<Rightarrow> Inl e
      | Inr ik \<Rightarrow>
          (case safe_subn subn pattern repl ik of
             Inl e \<Rightarrow> Inl e
           | Inr (k, c) \<Rightarrow>
               (case h_val h i of
                  Inl e \<Rightarrow> Inl e
                | Inr iv \<Rightarrow>
                    (case safe_subn subn pattern repl iv of
                       Inl e \<Rightarrow> Inl e
                     | Inr (v, c') \<Rightarrow> h_replace_loop subn h pattern repl is (nlst @ [(k, v)]) (count + c + c')))))"

definition h_replace :: "re_subn \<Rightarrow> heap \<Rightarrow> ref \<Rightarrow> pystr \<Rightarrow> pystr \<Rightarrow> pyerr + (nat \<times> heap)" where
  "h_replace subn h self pattern repl =
     (case h_lst h self of
        Inl e \<Rightarrow> Inl e
      | Inr (c, l) \<Rightarrow>
          (case h_seq h l of
             None \<Rightarrow> Inl TypeError
           | Some xs \<Rightarrow>
               (case h_replace_loop subn h pattern repl xs [] 0 of
                  Inl e \<Rightarrow> Inl e
                | Inr (kvs, count) \<Rightarrow>
                    (let (nl, h1) = h_new_entry_list h kvs in Inr (count, store_obj h1 self (OInst c nl))))))"

text \<open>\<open>load_state\<close> and \<open>from_state\<close>: new lists \<open>[k, v]\<close> for the state's pairs.\<close>

definition h_load_state :: "heap \<Rightarrow> ref \<Rightarrow> (pystr \<times> pystr) list \<Rightarrow> pyerr + heap" where
  "h_load_state h self st =
     (case h_lst h self of
        Inl e \<Rightarrow> Inl e
      | Inr (c, l) \<Rightarrow> (let (nl, h1) = h_new_entry_list h st in Inr (store_obj h1 self (OInst c nl))))"

definition h_from_state :: "heap \<Rightarrow> odict_class \<Rightarrow> (pystr \<times> pystr) list \<Rightarrow> ref \<times> heap" where
  "h_from_state h c st = (let (nl, h1) = h_new_entry_list h st in h_init h1 c (Some nl))"

text \<open>What a caller holding a list can do to it: \<open>x[i] = v\<close>.\<close>

definition py_list_store :: "heap \<Rightarrow> ref \<Rightarrow> nat \<Rightarrow> pyval \<Rightarrow> pyerr + heap" where
  "py_list_store h r i v =
     (case deref h r of
        Some (OSeq KList xs) \<Rightarrow> if i < length xs then Inr (store_obj h r (OSeq KList (xs[i := v]))) else Inl IndexError
      | _ \<Rightarrow> Inl TypeError)"

text \<open>\<open>m.items()[i][j] = v\<close>: a caller writing a string into an entry it got from
  \<open>items\<close>.\<close>

definition h_item_set :: "heap \<Rightarrow> ref \<Rightarrow> nat \<Rightarrow> nat \<Rightarrow> pystr \<Rightarrow> pyerr + heap" where
  "h_item_set h self i j v =
     (case h_items h self of
        Inl e \<Rightarrow> Inl e
      | Inr (it, h1) \<Rightarrow>
          (case h_seq h1 it of
             Some xs \<Rightarrow>
               if i < length xs then
                 (case xs ! i of VRef e \<Rightarrow> py_list_store h1 e j (VStr v) | VStr s \<Rightarrow> Inl TypeError)
               else Inl IndexError
           | None \<Rightarrow> Inl TypeError))"

section \<open>Sequences of calls on one map\<close>

text \<open>
  A caller's use of one map: the mutators \<open>add\<close>, \<open>del m[k]\<close>,
  \<open>m[k] = lst\<close> (with a list object of the store), \<open>load_state\<close>, \<open>replace\<close>
  and writing into an entry of \<open>items()\<close>, run in order until one raises.
  \<open>hop_writes\<close> is the object other than the map's own that a call may change: the
  value list of \<open>__setitem__\<close>.
\<close>

datatype hop = HAdd pystr pystr | HDel pystr | HSet pystr ref | HLoad "(pystr \<times> pystr) list"
  | HReplace pystr pystr | HItemSet nat nat pystr

fun run_op :: "re_subn \<Rightarrow> heap \<Rightarrow> ref \<Rightarrow> hop \<Rightarrow> (pyerr + heap) option" where
  "run_op subn h s (HAdd k v) = Some (h_add h s k v)"
| "run_op subn h s (HDel k) = Some (h_delitem h s k)"
| "run_op subn h s (HSet k r) = h_setitem h s k (VRef r)"
| "run_op subn h s (HLoad st) = Some (h_load_state h s st)"
| "run_op subn h s (HReplace p r) = Some (map_sum id snd (h_replace subn h s p r))"
| "run_op subn h s (HItemSet i j v) = Some (h_item_set h s i j v)"

fun run_ops :: "re_subn \<Rightarrow> heap \<Rightarrow> ref \<Rightarrow> hop list \<Rightarrow> (pyerr + heap) option" where
  "run_ops subn h s [] = Some (Inr h)"
| "run_ops subn h s (op # ops) =
     (case run_op subn h s op of
        None \<Rightarrow> None
      | Some (Inl e) \<Rightarrow> Some (Inl e)
      | Some (Inr h') \<Rightarrow> run_ops subn h' s ops)"

fun hop_writes :: "hop \<Rightarrow> ref set" where
  "hop_writes (HSet k r) = {r}"
| "hop_writes _ = {}"

section \<open>Footprints and frames\<close>

text \<open>The references held by a sequence of values, the objects an instance reaches
  (itself, its list and the list's entries: its footprint), and the relation of a store
  to a later one that differs from it only at the references \<open>S\<close> and by new objects.\<close>

fun refs :: "pyval list \<Rightarrow> ref list" where
  "refs [] = []"
| "refs (VStr s # xs) = refs xs"
| "refs (VRef r # xs) = r # refs xs"

definition fp :: "heap \<Rightarrow> ref \<Rightarrow> ref list" where
  "fp h self =
     (case deref h self of
        Some (OInst c l) \<Rightarrow> self # l # (case deref h l of Some (OSeq kd es) \<Rightarrow> refs es | _ \<Rightarrow> [])
      | _ \<Rightarrow> [self])"

definition unchanged_outside :: "heap \<Rightarrow> heap \<Rightarrow> ref set \<Rightarrow> bool" where
  "unchanged_outside h h' S \<longleftrightarrow>
     length (objs h) \<le> length (objs h') \<and>
     (\<forall>x. x < length (objs h) \<longrightarrow> x \<notin> S \<longrightarrow> deref h' x = deref h x)"

text \<open>One round of \<open>new.append([k, valuelist.pop(0)])\<close> on a list \<open>r\<close> of strings.\<close>

definition emit :: "heap \<Rightarrow> ref \<Rightarrow> ref \<Rightarrow> pystr \<Rightarrow> pystr \<Rightarrow> pystr list \<Rightarrow> pyval list \<Rightarrow> heap" where
  "emit h r nl k v vs acc =
     store_obj (snd (alloc (store_obj h r (OSeq KList (map VStr vs))) (OSeq KList [VStr k, VStr v])))
       nl (OSeq KList (acc @ [VRef (length (objs h))]))"

text \<open>A memo of the deep copy that maps each list entry copied so far to a new list with
  the same contents, at or above \<open>N\<close>.\<close>

definition memo_ok :: "nat \<Rightarrow> heap \<Rightarrow> (ref \<times> ref) list \<Rightarrow> bool" where
  "memo_ok N h memo \<longleftrightarrow>
     list_all (\<lambda>(e, e'). N \<le> e' \<and> (\<exists>vs. deref h e = Some (OSeq KList vs) \<and> deref h e' = Some (OSeq KList vs))) memo"

text \<open>The entries of an instance: the references in its list.\<close>

definition entry_refs :: "heap \<Rightarrow> ref \<Rightarrow> ref list" where
  "entry_refs h s =
     (case deref h s of
        Some (OInst c l) \<Rightarrow> (case deref h l of Some (OSeq kd es) \<Rightarrow> refs es | _ \<Rightarrow> [])
      | _ \<Rightarrow> [])"

text \<open>A call on \<open>s\<close> changes no object outside the footprint of \<open>s\<close> and \<open>W\<close>,
  and the new footprint of \<open>s\<close> is the old one and new objects.\<close>

definition call_frame :: "heap \<Rightarrow> heap \<Rightarrow> ref \<Rightarrow> ref set \<Rightarrow> bool" where
  "call_frame h h' s W \<longleftrightarrow>
     unchanged_outside h h' (set (fp h s) \<union> W) \<and> set (fp h' s) \<subseteq> set (fp h s) \<union> {x. length (objs h) \<le> x}"

section \<open>Lemmas on the store\<close>

lemma length_alloc [simp]: "length (objs (snd (alloc h x))) = Suc (length (objs h))"
  by (simp add: alloc_def)

lemma fst_alloc [simp]: "fst (alloc h x) = length (objs h)"
  by (simp add: alloc_def)

lemma deref_alloc:
  "deref (snd (alloc h x)) r = (if r = length (objs h) then Some x else deref h r)"
  by (auto simp: deref_def alloc_def nth_append)

lemma deref_store:
  "deref (store_obj h r x) r' = (if r' = r \<and> r < length (objs h) then Some x else deref h r')"
  by (auto simp: deref_def store_obj_def)

lemma length_store [simp]: "length (objs (store_obj h r x)) = length (objs h)"
  by (simp add: store_obj_def)

lemma deref_Some_less: "deref h r = Some x \<Longrightarrow> r < length (objs h)"
  by (simp add: deref_def split: if_splits)

lemma read_entry_agree:
  "(\<And>e. i = VRef e \<Longrightarrow> deref h' e = deref h e) \<Longrightarrow> read_entry h' i = read_entry h i"
  by (cases i) simp_all

lemma read_entries_agree:
  "(\<And>e. e \<in> set (refs ns) \<Longrightarrow> deref h' e = deref h e) \<Longrightarrow>
   map (read_entry h') ns = map (read_entry h) ns"
  by (induction ns rule: refs.induct) simp_all

lemma those_snoc:
  "those (xs @ [Some y]) = map_option (\<lambda>as. as @ [y]) (those xs)"
  by (induction xs) (auto split: option.splits simp: option.map_comp comp_def)

lemma those_map_Some_refs:
  "those (map (read_entry h) ns) = Some xs \<Longrightarrow> e \<in> set (refs ns) \<Longrightarrow>
   \<exists>kd k v. deref h e = Some (OSeq kd [VStr k, VStr v])"
  by (induction ns arbitrary: xs rule: refs.induct)
     (auto split: option.splits pyobj.splits seqkind.splits list.splits pyval.splits)

lemma view_SomeE:
  assumes "view h self = Some m"
  obtains l es where "deref h self = Some (OInst (cls m) l)" and "deref h l = Some (OSeq KList es)"
    and "those (map (read_entry h) es) = Some (lst m)"
  using assms
  by (auto simp: view_def h_lst_def split: option.splits pyobj.splits sum.splits seqkind.splits)

lemma view_agree:
  assumes "\<And>r. r \<in> set (fp h self) \<Longrightarrow> deref h' r = deref h r"
  shows "view h' self = view h self"
proof -
  have s: "deref h' self = deref h self"
    using assms by (auto simp: fp_def split: option.splits pyobj.splits)
  show ?thesis
  proof (cases "deref h self")
    case None
    with s show ?thesis by (simp add: view_def h_lst_def)
  next
    case (Some x)
    note sx = this
    show ?thesis
    proof (cases x)
      case (OSeq kd xs)
      with sx s show ?thesis by (simp add: view_def h_lst_def)
    next
      case (OInst c l)
      with sx assms have l: "deref h' l = deref h l"
        by (auto simp: fp_def)
      show ?thesis
      proof (cases "deref h l")
        case None
        with sx OInst s l show ?thesis by (simp add: view_def h_lst_def)
      next
        case (Some y)
        note sy = this
        show ?thesis
        proof (cases y)
          case (OSeq kd es)
          with sx OInst sy assms have "\<And>e. e \<in> set (refs es) \<Longrightarrow> deref h' e = deref h e"
            by (auto simp: fp_def)
          then have "map (read_entry h') es = map (read_entry h) es"
            by (rule read_entries_agree)
          then have t: "those (map (read_entry h') es) = those (map (read_entry h) es)"
            by (rule arg_cong)
          from sx OInst s l sy OSeq show ?thesis
            by (cases kd) (simp_all add: view_def h_lst_def t)
        next
          case (OInst c' l')
          with sx \<open>x = OInst c l\<close> s l sy show ?thesis by (simp add: view_def h_lst_def)
        qed
      qed
    qed
  qed
qed

lemma view_entries_not_self_lst:
  assumes "deref h self = Some (OInst c l)" and "deref h l = Some (OSeq KList es)"
    and "those (map (read_entry h) es) = Some xs" and "e \<in> set (refs es)"
  shows "e \<noteq> self \<and> e \<noteq> l"
proof -
  obtain kd k v where e: "deref h e = Some (OSeq kd [VStr k, VStr v])"
    using those_map_Some_refs [OF assms(3,4)] by blast
  have "e \<noteq> l"
  proof
    assume "e = l"
    with e assms(2) have "es = [VStr k, VStr v]" by simp
    with assms(4) show False by simp
  qed
  moreover have "e \<noteq> self" using e assms(1) by auto
  ultimately show ?thesis by simp
qed

lemma uo_refl [simp]: "unchanged_outside h h S"
  by (simp add: unchanged_outside_def)

lemma uo_trans:
  "unchanged_outside h h1 S \<Longrightarrow> unchanged_outside h1 h2 S \<Longrightarrow> unchanged_outside h h2 S"
  by (auto simp: unchanged_outside_def)

lemma uo_mono: "unchanged_outside h h' S \<Longrightarrow> S \<subseteq> T \<Longrightarrow> unchanged_outside h h' T"
  by (auto simp: unchanged_outside_def)

lemma uo_alloc: "unchanged_outside h (snd (alloc h x)) S"
  by (simp add: unchanged_outside_def deref_alloc)

lemma uo_store: "r \<in> S \<Longrightarrow> unchanged_outside h (store_obj h r x) S"
  by (auto simp: unchanged_outside_def deref_store)

lemma uo_deref:
  "unchanged_outside h h' S \<Longrightarrow> deref h x = Some y \<Longrightarrow> x \<notin> S \<Longrightarrow> deref h' x = Some y"
  by (auto simp: unchanged_outside_def dest: deref_Some_less)

lemma uo_less: "unchanged_outside h h' S \<Longrightarrow> x < length (objs h) \<Longrightarrow> x < length (objs h')"
  by (simp add: unchanged_outside_def)

text \<open>An entry list readable in \<open>h\<close> reads the same in a store changed only elsewhere.\<close>

lemma uo_read_entries:
  assumes "unchanged_outside h h' S" and "those (map (read_entry h) xs) = Some ents"
    and "set (refs xs) \<inter> S = {}"
  shows "those (map (read_entry h') xs) = Some ents"
proof -
  have "map (read_entry h') xs = map (read_entry h) xs"
  proof (rule read_entries_agree)
    fix e assume e: "e \<in> set (refs xs)"
    obtain kd k v where "deref h e = Some (OSeq kd [VStr k, VStr v])"
      using those_map_Some_refs [OF assms(2) e] by blast
    with assms(1,3) e show "deref h' e = deref h e" by (auto dest: uo_deref)
  qed
  with assms(2) show ?thesis by (simp del: map_eq_conv)
qed

lemma refs_less:
  "those (map (read_entry h) xs) = Some ents \<Longrightarrow> x \<in> set (refs xs) \<Longrightarrow> x < length (objs h)"
  using those_map_Some_refs deref_Some_less by blast

lemma those_map_length:
  "those (map f xs) = Some ys \<Longrightarrow> length ys = length xs"
  by (induction xs arbitrary: ys) (auto split: option.splits)

lemma those_map_nth:
  "those (map f xs) = Some ys \<Longrightarrow> i < length xs \<Longrightarrow> f (xs ! i) = Some (ys ! i)"
  by (induction xs arbitrary: ys i) (auto split: option.splits simp: nth_Cons split: nat.splits)

lemma h_key_read_entry: "read_entry h x = Some e \<Longrightarrow> h_key h x = Inr (ekey e)"
  by (cases x) (auto simp: h_key_def h_seq_def split: option.splits pyobj.splits seqkind.splits
      list.splits pyval.splits)

lemma h_val_read_entry: "read_entry h x = Some e \<Longrightarrow> h_val h x = Inr (evalue e)"
  by (cases x) (auto simp: h_val_def h_seq_def split: option.splits pyobj.splits seqkind.splits
      list.splits pyval.splits)

lemma refs_append [simp]: "refs (xs @ ys) = refs xs @ refs ys"
  by (induction xs rule: refs.induct) simp_all

lemma refs_map_VStr [simp]: "refs (map VStr vs) = []"
  by (induction vs) simp_all

lemma refs_nth: "i < length xs \<Longrightarrow> xs ! i = VRef e \<Longrightarrow> e \<in> set (refs xs)"
  by (induction xs arbitrary: i rule: refs.induct) (auto simp: nth_Cons split: nat.splits)

lemma emit_steps:
  assumes "deref h r = Some (OSeq KList (map VStr (v # vs)))" and "deref h nl = Some (OSeq KList acc)"
    and "r \<noteq> nl"
  shows "h_truthy h r"
    and "h_pop0 h r = Inr (VStr v, store_obj h r (OSeq KList (map VStr vs)))"
    and "h_new_pair (store_obj h r (OSeq KList (map VStr vs))) k (VStr v) =
           (length (objs h), snd (alloc (store_obj h r (OSeq KList (map VStr vs))) (OSeq KList [VStr k, VStr v])))"
    and "h_append (snd (alloc (store_obj h r (OSeq KList (map VStr vs))) (OSeq KList [VStr k, VStr v]))) nl
           (VRef (length (objs h))) = Inr (emit h r nl k v vs acc)"
proof -
  have lt: "r < length (objs h)" "nl < length (objs h)"
    using assms(1,2) by (simp_all add: deref_Some_less)
  show "h_truthy h r" using assms(1) by (simp add: h_truthy_def)
  show "h_pop0 h r = Inr (VStr v, store_obj h r (OSeq KList (map VStr vs)))"
    using assms(1) by (simp add: h_pop0_def)
  show "h_new_pair (store_obj h r (OSeq KList (map VStr vs))) k (VStr v) =
           (length (objs h), snd (alloc (store_obj h r (OSeq KList (map VStr vs))) (OSeq KList [VStr k, VStr v])))"
    by (simp add: h_new_pair_def alloc_def store_obj_def)
  show "h_append (snd (alloc (store_obj h r (OSeq KList (map VStr vs))) (OSeq KList [VStr k, VStr v]))) nl
           (VRef (length (objs h))) = Inr (emit h r nl k v vs acc)"
    using assms lt by (simp add: h_append_def emit_def deref_alloc deref_store)
qed

lemma emit_props:
  assumes "deref h r = Some (OSeq KList (map VStr (v # vs)))" and "deref h nl = Some (OSeq KList acc)"
    and "r \<noteq> nl"
  shows "deref (emit h r nl k v vs acc) r = Some (OSeq KList (map VStr vs))"
    and "deref (emit h r nl k v vs acc) nl = Some (OSeq KList (acc @ [VRef (length (objs h))]))"
    and "deref (emit h r nl k v vs acc) (length (objs h)) = Some (OSeq KList [VStr k, VStr v])"
    and "unchanged_outside h (emit h r nl k v vs acc) {r, nl}"
proof -
  have lt: "r < length (objs h)" "nl < length (objs h)"
    using assms(1,2) by (simp_all add: deref_Some_less)
  then show "deref (emit h r nl k v vs acc) r = Some (OSeq KList (map VStr vs))"
    and "deref (emit h r nl k v vs acc) nl = Some (OSeq KList (acc @ [VRef (length (objs h))]))"
    and "deref (emit h r nl k v vs acc) (length (objs h)) = Some (OSeq KList [VStr k, VStr v])"
    using assms(3) by (auto simp: emit_def deref_store deref_alloc)
  show "unchanged_outside h (emit h r nl k v vs acc) {r, nl}"
    unfolding emit_def
    by (rule uo_trans [OF uo_trans [OF uo_store uo_alloc] uo_store]) simp_all
qed

lemma memo_ok_Nil [simp]: "memo_ok N h []"
  by (simp add: memo_ok_def)

lemma memo_ok_uo: "memo_ok N h memo \<Longrightarrow> unchanged_outside h h' {} \<Longrightarrow> memo_ok N h' memo"
  by (fastforce simp: memo_ok_def list_all_iff dest: uo_deref)

lemma memo_ok_lookup:
  "memo_ok N h memo \<Longrightarrow> map_of memo e = Some e' \<Longrightarrow> N \<le> e' \<and> deref h e' = deref h e"
  by (auto simp: memo_ok_def list_all_iff dest!: map_of_SomeD)

lemma h_init_list:
  assumes "deref h r = Some (OSeq KList xs)"
  shows "h_init h c (Some r) =
     (if xs \<noteq> [] then (length (objs h), snd (alloc h (OInst c r)))
      else (Suc (length (objs h)), snd (alloc (snd (alloc h (OSeq KList []))) (OInst c (length (objs h))))))"
  using assms by (simp add: h_init_def h_truthy_def alloc_def)

lemma uo_fp:
  assumes "unchanged_outside h h' S" and "set (fp h s) \<inter> S = {}" and "\<forall>x\<in>set (fp h s). x < length (objs h)"
  shows "fp h' s = fp h s"
proof -
  have "\<And>x. x \<in> set (fp h s) \<Longrightarrow> deref h' x = deref h x"
    using assms by (auto simp: unchanged_outside_def)
  then show ?thesis
    by (auto simp: fp_def split: option.splits pyobj.splits)
qed

lemma fp_less: "view h s = Some m \<Longrightarrow> \<forall>x\<in>set (fp h s). x < length (objs h)"
proof -
  assume v: "view h s = Some m"
  then obtain l es where s: "deref h s = Some (OInst (cls m) l)" and l: "deref h l = Some (OSeq KList es)"
    and es: "those (map (read_entry h) es) = Some (lst m)"
    by (rule view_SomeE)
  then show ?thesis
    using refs_less [OF es] by (auto simp: fp_def dest: deref_Some_less)
qed

lemma uo_view:
  assumes "unchanged_outside h h' S" and "view h s = Some m" and "set (fp h s) \<inter> S = {}"
  shows "view h' s = Some m"
proof -
  have "\<And>r. r \<in> set (fp h s) \<Longrightarrow> deref h' r = deref h r"
    using assms(1,3) fp_less [OF assms(2)] by (auto simp: unchanged_outside_def)
  then have "view h' s = view h s" by (rule view_agree)
  with assms(2) show ?thesis by simp
qed

lemma refs_nth_subset: "i < length xs \<Longrightarrow> set (refs [xs ! i]) \<subseteq> set (refs xs)"
  by (cases "xs ! i") (auto intro: refs_nth)

lemma refs_Cons_subset: "set (refs xs) \<subseteq> set (refs (x # xs))"
  by (cases x) auto

lemma pop_frame:
  assumes "h_pop0 h r = Inr (v, h1)"
  shows "\<exists>vs. deref h r = Some (OSeq KList (v # vs)) \<and> h1 = store_obj h r (OSeq KList vs)"
  using assms by (auto simp: h_pop0_def split: option.splits pyobj.splits seqkind.splits list.splits)

lemma append_frame:
  assumes "h_append h r x = Inr h1"
  shows "\<exists>xs. deref h r = Some (OSeq KList xs) \<and> h1 = store_obj h r (OSeq KList (xs @ [x]))"
  using assms by (auto simp: h_append_def split: option.splits pyobj.splits seqkind.splits)

lemma set_refs: "set (refs xs) = {r. VRef r \<in> set xs}"
  by (induction xs rule: refs.induct) auto

lemma fp_inst:
  "deref h s = Some (OInst c l) \<Longrightarrow> deref h l = Some (OSeq kd xs) \<Longrightarrow> fp h s = s # l # refs xs"
  by (simp add: fp_def)

lemma fp_inst_mem: "deref h s = Some (OInst c l) \<Longrightarrow> s \<in> set (fp h s) \<and> l \<in> set (fp h s)"
  by (simp add: fp_def)

lemma h_lst_Inr: "h_lst h s = Inr (c, l) \<Longrightarrow> deref h s = Some (OInst c l)"
  by (auto simp: h_lst_def split: option.splits pyobj.splits)

lemma uo_fresh:
  "unchanged_outside h h' S \<Longrightarrow> unchanged_outside h h' (S - {x. length (objs h) \<le> x})"
  by (auto simp: unchanged_outside_def)

text \<open>Binding \<open>self.lst\<close> to a new list whose entries are the old ones or new objects.\<close>

lemma rebind_frame:
  assumes "deref h s = Some (OInst c l)" and "unchanged_outside h h1 W"
    and "deref h1 nl = Some (OSeq KList ys)" and "length (objs h) \<le> nl"
    and "set (refs ys) \<subseteq> set (fp h s) \<union> {x. length (objs h) \<le> x}"
  shows "unchanged_outside h (store_obj h1 s (OInst c nl)) (insert s W) \<and>
     set (fp (store_obj h1 s (OInst c nl)) s) \<subseteq> set (fp h s) \<union> {x. length (objs h) \<le> x}"
proof -
  have slt: "s < length (objs h)" using assms(1) by (rule deref_Some_less)
  have slt1: "s < length (objs h1)" using assms(2) slt by (rule uo_less)
  have sn: "s \<noteq> nl" using slt assms(4) by simp
  have u: "unchanged_outside h1 (store_obj h1 s (OInst c nl)) (insert s W)" by (rule uo_store) simp
  have "unchanged_outside h (store_obj h1 s (OInst c nl)) (insert s W)"
    using uo_mono [OF assms(2)] u by (blast intro: uo_trans)
  moreover have "fp (store_obj h1 s (OInst c nl)) s = s # nl # refs ys"
    using assms(3) slt1 sn by (simp add: fp_def deref_store)
  ultimately show ?thesis using assms(1,4,5) fp_inst_mem [OF assms(1)] by auto
qed

lemma h_filter_loop_subset: "h_filter_loop h c k xs new = Inr ys \<Longrightarrow> set ys \<subseteq> set new \<union> set xs"
  by (induction xs arbitrary: new) (fastforce split: sum.splits if_splits)+

lemma h_alloc_pairs_fresh:
  "h_alloc_pairs h kvs = (es, h1) \<Longrightarrow>
   unchanged_outside h h1 {} \<and> (\<forall>e\<in>set es. length (objs h) \<le> e)"
proof (induction kvs arbitrary: h es h1)
  case Nil
  then show ?case by simp
next
  case (Cons kv kvs)
  obtain k v where kv: "kv = (k, v)" by (cases kv)
  define h0 where "h0 = snd (alloc h (OSeq KList [VStr k, VStr v]))"
  obtain es' h2 where r: "h_alloc_pairs h0 kvs = (es', h2)" by (cases "h_alloc_pairs h0 kvs")
  then have es: "es = length (objs h) # es'" "h1 = h2"
    using Cons.prems kv by (simp_all add: h_new_pair_def alloc_def h0_def)
  have "unchanged_outside h0 h2 {} \<and> (\<forall>e\<in>set es'. length (objs h0) \<le> e)"
    using Cons.IH [OF r] .
  moreover have "length (objs h0) = Suc (length (objs h))" by (simp add: h0_def)
  moreover have "unchanged_outside h h0 {}" unfolding h0_def by (rule uo_alloc)
  ultimately show ?case using es by (auto intro: uo_trans)
qed

lemma h_new_entry_list_fresh:
  assumes "h_new_entry_list h kvs = (nl, h1)"
  shows "\<exists>ys. unchanged_outside h h1 {} \<and> deref h1 nl = Some (OSeq KList ys) \<and> length (objs h) \<le> nl \<and>
     set (refs ys) \<subseteq> {x. length (objs h) \<le> x}"
proof -
  obtain es h2 where p: "h_alloc_pairs h kvs = (es, h2)" by (cases "h_alloc_pairs h kvs")
  note f = h_alloc_pairs_fresh [OF p]
  have "nl = length (objs h2)" "h1 = snd (alloc h2 (OSeq KList (map VRef es)))"
    using assms p by (simp_all add: h_new_entry_list_def alloc_def)
  moreover have "set (refs (map VRef es)) = set es" by (induction es) auto
  ultimately show ?thesis
    using f by (auto simp: deref_alloc unchanged_outside_def intro: uo_trans)
qed

lemma those_update:
  "those ys = Some zs \<Longrightarrow> i < length ys \<Longrightarrow> those (ys[i := Some a]) = Some (zs[i := a])"
  by (induction ys arbitrary: i zs) (auto split: option.splits nat.splits)

lemma those_append:
  "those xs = Some as \<Longrightarrow> those ys = Some bs \<Longrightarrow> those (xs @ ys) = Some (as @ bs)"
  by (induction xs arbitrary: as) (auto split: option.splits)

lemma h_add_eq:
  assumes "deref h s = Some (OInst c l)" and "deref h l = Some (OSeq KList xs)"
  shows "h_add h s k v =
     Inr (store_obj (snd (alloc h (OSeq KList [VStr k, VStr v]))) l (OSeq KList (xs @ [VRef (length (objs h))])))"
proof -
  have "deref (snd (alloc h (OSeq KList [VStr k, VStr v]))) l = Some (OSeq KList xs)"
    using assms(2) deref_Some_less [OF assms(2)] by (simp add: deref_alloc)
  then show ?thesis
    using assms(1) by (simp add: h_add_def h_lst_def h_new_pair_def h_append_def split_def)
qed

lemma h_alloc_pairs_read:
  "h_alloc_pairs h kvs = (es, h1) \<Longrightarrow>
   those (map (read_entry h1) (map VRef es)) = Some (map (\<lambda>(k, v). LItem k v) kvs)"
proof (induction kvs arbitrary: h es h1)
  case Nil
  then show ?case by simp
next
  case (Cons kv kvs)
  obtain k v where kv: "kv = (k, v)" by (cases kv)
  define h0 where "h0 = snd (alloc h (OSeq KList [VStr k, VStr v]))"
  obtain es' h2 where r: "h_alloc_pairs h0 kvs = (es', h2)" by (cases "h_alloc_pairs h0 kvs")
  then have es: "es = length (objs h) # es'" "h1 = h2"
    using Cons.prems kv by (simp_all add: h_new_pair_def alloc_def h0_def)
  have d0: "deref h0 (length (objs h)) = Some (OSeq KList [VStr k, VStr v])"
    by (simp add: h0_def deref_alloc)
  have "deref h2 (length (objs h)) = Some (OSeq KList [VStr k, VStr v])"
    using h_alloc_pairs_fresh [OF r] d0 by (auto intro: uo_deref)
  then show ?case using Cons.IH [OF r] es kv by simp
qed

lemma h_new_entry_list_read:
  assumes "h_new_entry_list h kvs = (nl, h1)"
  shows "\<exists>ys. deref h1 nl = Some (OSeq KList ys) \<and>
     those (map (read_entry h1) ys) = Some (map (\<lambda>(k, v). LItem k v) kvs) \<and> length ys = length kvs"
proof -
  obtain es h2 where p: "h_alloc_pairs h kvs = (es, h2)" by (cases "h_alloc_pairs h kvs")
  have nl: "nl = length (objs h2)" and h1: "h1 = snd (alloc h2 (OSeq KList (map VRef es)))"
    using assms p by (simp_all add: h_new_entry_list_def alloc_def)
  have "those (map (read_entry h1) (map VRef es)) = Some (map (\<lambda>(k, v). LItem k v) kvs)"
    using uo_read_entries [OF _ h_alloc_pairs_read [OF p], of h1 "{}"] h1 uo_alloc by simp
  moreover have "length es = length kvs"
    using those_map_length [OF h_alloc_pairs_read [OF p]] by simp
  ultimately show ?thesis by (simp add: nl h1 deref_alloc)
qed

lemma map_sum_snd_Inr: "map_sum id snd x = Inr y \<Longrightarrow> \<exists>n. x = Inr (n, y)"
  by (cases x) auto

lemma read_entries_store:
  assumes "those (map (read_entry h) xs) = Some ents" and "distinct xs" and "i < length xs"
    and "xs ! i = VRef e" and "unchanged_outside h h' {e}" and "read_entry h' (VRef e) = Some a"
  shows "those (map (read_entry h') xs) = Some (ents[i := a])"
proof -
  have "map (read_entry h') xs = (map (read_entry h) xs)[i := Some a]"
  proof (rule nth_equalityI)
    fix j assume j: "j < length (map (read_entry h') xs)"
    show "map (read_entry h') xs ! j = (map (read_entry h) xs)[i := Some a] ! j"
    proof (cases "j = i")
      case True
      then show ?thesis using j assms(4,6) by simp
    next
      case False
      then have ne: "xs ! j \<noteq> xs ! i" using assms(2,3) j by (simp add: nth_eq_iff_index_eq)
      have "read_entry h' (xs ! j) = read_entry h (xs ! j)"
      proof (cases "xs ! j")
        case (VRef x)
        have "x < length (objs h)"
          using refs_less [OF assms(1) refs_nth [of j xs x]] j VRef by simp
        moreover have "x \<noteq> e" using VRef ne assms(4) by auto
        ultimately have "deref h' x = deref h x" using assms(5) by (simp add: unchanged_outside_def)
        then show ?thesis using VRef by simp
      qed simp
      then show ?thesis using False j by simp
    qed
  qed simp
  then show ?thesis using those_update [OF assms(1), of i] assms(3) by (simp del: map_eq_conv)
qed

end
