(* ===== verification/HeapSim.thy ===== *)
theory HeapSim
  imports Heap
begin

text \<open>
  The methods of \<^theory_text>\<open>Heap\<close> simulated by those of \<^theory_text>\<open>ODict\<close>: on a store
  where the receiver reads as a map \<open>m\<close>, each method returns normally, the receiver
  reads as the result of the value model's method on \<open>m\<close>, and the objects changed
  are named. For \<open>__setitem__\<close> the fuel of both loops is shown to be enough
  when the value list is a list of strings outside the map's footprint.
\<close>

section \<open>\<open>__setitem__\<close>\<close>

text \<open>The \<open>for\<close> loop, from index \<open>i\<close> of the map's list, with the value list
  \<open>r\<close> and the new list \<open>nl\<close> distinct from it and from its entries.\<close>

lemma h_walk_sim:
  assumes "deref h l = Some (OSeq kd xs)" and "those (map (read_entry h) xs) = Some ents"
    and "deref h r = Some (OSeq KList (map VStr vs))"
    and "deref h nl = Some (OSeq KList acc)" and "those (map (read_entry h) acc) = Some new"
    and "r \<noteq> l" and "nl \<noteq> l" and "r \<noteq> nl"
    and "r \<notin> set (refs xs)" and "nl \<notin> set (refs xs)"
    and "r \<notin> set (refs acc)" and "nl \<notin> set (refs acc)"
    and "length xs - i < n"
  shows "\<exists>h' acc' new' vs'. h_setitem_walk n h c k kc l i r nl = Some (Inr h') \<and>
     setitem_walk c k kc (drop i ents) (ArgList vs) new = Inr (new', ArgList vs') \<and>
     deref h' r = Some (OSeq KList (map VStr vs')) \<and> deref h' nl = Some (OSeq KList acc') \<and>
     those (map (read_entry h') acc') = Some new' \<and>
     r \<notin> set (refs acc') \<and> nl \<notin> set (refs acc') \<and> unchanged_outside h h' {r, nl}"
  using assms
proof (induction n arbitrary: i h vs acc new)
  case 0
  then show ?case by simp
next
  case (Suc n)
  have len: "length ents = length xs"
    using Suc.prems(2) by (rule those_map_length)
  have seq: "h_seq h l = Some xs" using Suc.prems(1) by (simp add: h_seq_def)
  show ?case
  proof (cases "length xs \<le> i")
    case True
    then show ?thesis using Suc.prems seq len by auto
  next
    case False
    then have i: "i < length xs" by simp
    have re: "read_entry h (xs ! i) = Some (ents ! i)"
      using those_map_nth [OF Suc.prems(2) i] .
    then obtain e where xe: "xs ! i = VRef e" by (cases "xs ! i") simp_all
    have ein: "e \<in> set (refs xs)" using i xe by (rule refs_nth)
    have key: "h_key h (xs ! i) = Inr (ekey (ents ! i))" using re by (rule h_key_read_entry)
    have drop: "drop i ents = ents ! i # drop (Suc i) ents"
      using i len by (simp add: Cons_nth_drop_Suc)
    have fuel: "length xs - Suc i < n" using Suc.prems(13) i by simp
    show ?thesis
    proof (cases "kconv c (ekey (ents ! i)) = kc")
      case match: True
      show ?thesis
      proof (cases vs)
        case Nil
        have "\<not> h_truthy h r" using Suc.prems(3) Nil by (simp add: h_truthy_def)
        then show ?thesis
          using Suc.IH [OF Suc.prems(1-12) fuel] seq i key match drop Nil by simp
      next
        case (Cons v vs')
        define h3 where "h3 = emit h r nl k v vs' acc"
        note st = emit_steps [OF Suc.prems(3) [unfolded Cons] Suc.prems(4) Suc.prems(8)]
        note pr = emit_props [OF Suc.prems(3) [unfolded Cons] Suc.prems(4) Suc.prems(8), of k,
            folded h3_def]
        have step: "h_setitem_walk (Suc n) h c k kc l i r nl = h_setitem_walk n h3 c k kc l (Suc i) r nl"
          using seq i key match st by (simp add: h3_def Cons)
        have lt: "r < length (objs h)" "nl < length (objs h)"
          using Suc.prems(3,4) by (simp_all add: deref_Some_less)
        have l3: "deref h3 l = Some (OSeq kd xs)"
          using pr(4) Suc.prems(1,6,7) by (auto intro: uo_deref)
        have x3: "those (map (read_entry h3) xs) = Some ents"
          using pr(4) Suc.prems(2,9,10) by (auto intro: uo_read_entries)
        have a3: "those (map (read_entry h3) (acc @ [VRef (length (objs h))])) = Some (new @ [LItem k v])"
        proof -
          have "those (map (read_entry h3) acc) = Some new"
            using pr(4) Suc.prems(5,11,12) by (auto intro: uo_read_entries)
          then show ?thesis using pr(3) by (simp add: those_snoc)
        qed
        have ra: "r \<notin> set (refs (acc @ [VRef (length (objs h))]))"
          "nl \<notin> set (refs (acc @ [VRef (length (objs h))]))"
          using Suc.prems(11,12) lt by auto
        obtain h' acc' new' vs'' where
          IH: "h_setitem_walk n h3 c k kc l (Suc i) r nl = Some (Inr h')"
              "setitem_walk c k kc (drop (Suc i) ents) (ArgList vs') (new @ [LItem k v]) = Inr (new', ArgList vs'')"
              "deref h' r = Some (OSeq KList (map VStr vs''))" "deref h' nl = Some (OSeq KList acc')"
              "those (map (read_entry h') acc') = Some new'"
              "r \<notin> set (refs acc')" "nl \<notin> set (refs acc')" "unchanged_outside h3 h' {r, nl}"
          using Suc.IH [OF l3 x3 pr(1) pr(2) a3 Suc.prems(6-10) ra fuel] by blast
        have "unchanged_outside h h' {r, nl}" using pr(4) IH(8) by (rule uo_trans)
        then show ?thesis using IH step drop match Cons by auto
      qed
    next
      case nomatch: False
      define h3 where "h3 = store_obj h nl (OSeq KList (acc @ [xs ! i]))"
      have step: "h_setitem_walk (Suc n) h c k kc l i r nl = h_setitem_walk n h3 c k kc l (Suc i) r nl"
        using seq i key nomatch Suc.prems(4) by (simp add: h3_def h_append_def)
      have u3: "unchanged_outside h h3 {r, nl}" unfolding h3_def by (rule uo_store) simp
      have lt: "nl < length (objs h)" using Suc.prems(4) by (simp add: deref_Some_less)
      have l3: "deref h3 l = Some (OSeq kd xs)"
        using u3 Suc.prems(1,6,7) by (auto intro: uo_deref)
      have x3: "those (map (read_entry h3) xs) = Some ents"
        using u3 Suc.prems(2,9,10) by (auto intro: uo_read_entries)
      have r3: "deref h3 r = Some (OSeq KList (map VStr vs))"
        using Suc.prems(3,8) by (simp add: h3_def deref_store)
      have n3: "deref h3 nl = Some (OSeq KList (acc @ [xs ! i]))"
        using lt by (simp add: h3_def deref_store)
      have ri: "r \<noteq> e" "nl \<noteq> e" using ein Suc.prems(9,10) by auto
      have a3: "those (map (read_entry h3) (acc @ [xs ! i])) = Some (new @ [ents ! i])"
      proof -
        have "those (map (read_entry h3) acc) = Some new"
          using u3 Suc.prems(5,11,12) by (auto intro: uo_read_entries)
        moreover have "read_entry h3 (xs ! i) = Some (ents ! i)"
        proof -
          have "those (map (read_entry h3) [xs ! i]) = Some [ents ! i]"
            by (rule uo_read_entries [OF u3]) (use re xe ri in simp_all)
          then show ?thesis by (simp split: option.splits)
        qed
        ultimately show ?thesis by (simp add: those_snoc)
      qed
      have ra: "r \<notin> set (refs (acc @ [xs ! i]))" "nl \<notin> set (refs (acc @ [xs ! i]))"
        using Suc.prems(11,12) xe ri by auto
      obtain h' acc' new' vs'' where
        IH: "h_setitem_walk n h3 c k kc l (Suc i) r nl = Some (Inr h')"
            "setitem_walk c k kc (drop (Suc i) ents) (ArgList vs) (new @ [ents ! i]) = Inr (new', ArgList vs'')"
            "deref h' r = Some (OSeq KList (map VStr vs''))" "deref h' nl = Some (OSeq KList acc')"
            "those (map (read_entry h') acc') = Some new'"
            "r \<notin> set (refs acc')" "nl \<notin> set (refs acc')" "unchanged_outside h3 h' {r, nl}"
        using Suc.IH [OF l3 x3 r3 n3 a3 Suc.prems(6-10) ra fuel] by blast
      have "unchanged_outside h h' {r, nl}" using u3 IH(8) by (rule uo_trans)
      then show ?thesis using IH step drop nomatch by auto
    qed
  qed
qed

lemma h_tail_sim:
  assumes "deref h r = Some (OSeq KList (map VStr vs))"
    and "deref h nl = Some (OSeq KList acc)" and "those (map (read_entry h) acc) = Some new"
    and "r \<noteq> nl" and "r \<notin> set (refs acc)" and "nl \<notin> set (refs acc)"
    and "length vs < n"
  shows "\<exists>h' acc'. h_setitem_tail n h k r nl = Some (Inr h') \<and>
     deref h' r = Some (OSeq KList []) \<and> deref h' nl = Some (OSeq KList acc') \<and>
     those (map (read_entry h') acc') = Some (new @ map (LItem k) vs) \<and>
     unchanged_outside h h' {r, nl}"
  using assms
proof (induction n arbitrary: h vs acc new)
  case 0
  then show ?case by simp
next
  case (Suc n)
  show ?case
  proof (cases vs)
    case Nil
    have "\<not> h_truthy h r" using Suc.prems(1) Nil by (simp add: h_truthy_def)
    then show ?thesis using Suc.prems Nil by simp
  next
    case (Cons v vs')
    define h3 where "h3 = emit h r nl k v vs' acc"
    note st = emit_steps [OF Suc.prems(1) [unfolded Cons] Suc.prems(2) Suc.prems(4)]
    note pr = emit_props [OF Suc.prems(1) [unfolded Cons] Suc.prems(2) Suc.prems(4), of k,
        folded h3_def]
    have step: "h_setitem_tail (Suc n) h k r nl = h_setitem_tail n h3 k r nl"
      using st by (simp add: h3_def)
    have lt: "r < length (objs h)" "nl < length (objs h)"
      using Suc.prems(1,2) by (simp_all add: deref_Some_less)
    have a3: "those (map (read_entry h3) (acc @ [VRef (length (objs h))])) = Some (new @ [LItem k v])"
    proof -
      have "those (map (read_entry h3) acc) = Some new"
        using pr(4) Suc.prems(3,5,6) by (auto intro: uo_read_entries)
      then show ?thesis using pr(3) by (simp add: those_snoc)
    qed
    have ra: "r \<notin> set (refs (acc @ [VRef (length (objs h))]))"
      "nl \<notin> set (refs (acc @ [VRef (length (objs h))]))"
      using Suc.prems(5,6) lt by auto
    have fuel: "length vs' < n" using Suc.prems(7) Cons by simp
    obtain h' acc' where
      IH: "h_setitem_tail n h3 k r nl = Some (Inr h')" "deref h' r = Some (OSeq KList [])"
          "deref h' nl = Some (OSeq KList acc')"
          "those (map (read_entry h') acc') = Some ((new @ [LItem k v]) @ map (LItem k) vs')"
          "unchanged_outside h3 h' {r, nl}"
      using Suc.IH [OF pr(1) pr(2) a3 Suc.prems(4) ra fuel] by blast
    have "unchanged_outside h h' {r, nl}" using pr(4) IH(5) by (rule uo_trans)
    then show ?thesis using IH step Cons by auto
  qed
qed

lemma those_refs_OSeq:
  "those (map (read_entry h) xs) = Some ents \<Longrightarrow> e \<in> set (refs xs) \<Longrightarrow> deref h e = Some (OInst c l) \<Longrightarrow> False"
  using those_map_Some_refs by fastforce

lemma h_setitem_view:
  assumes "view h self = Some m" and "deref h r = Some (OSeq KList (map VStr vs))"
    and "r \<notin> set (fp h self)"
  shows "\<exists>h' m'. h_setitem h self k (VRef r) = Some (Inr h') \<and> setitem m k (ArgList vs) = Inr m' \<and>
     view h' self = Some m' \<and> deref h' r = Some (OSeq KList []) \<and> unchanged_outside h h' {self, r}"
proof -
  obtain l xs where s: "deref h self = Some (OInst (cls m) l)" and l: "deref h l = Some (OSeq KList xs)"
    and xs: "those (map (read_entry h) xs) = Some (lst m)"
    using assms(1) by (rule view_SomeE)
  have fp: "fp h self = self # l # refs xs" using s l by (simp add: fp_def)
  have rl: "r \<noteq> self" "r \<noteq> l" "r \<notin> set (refs xs)" using assms(3) fp by auto
  define nl where "nl = length (objs h)"
  define h1 where "h1 = snd (alloc h (OSeq KList []))"
  have a: "alloc h (OSeq KList []) = (nl, h1)" by (simp add: nl_def h1_def alloc_def)
  have u1: "unchanged_outside h h1 {}" unfolding h1_def by (rule uo_alloc)
  have lt: "self < nl" "l < nl" "r < nl"
    using s l assms(2) by (simp_all add: nl_def deref_Some_less)
  have nlx: "nl \<notin> set (refs xs)" using refs_less [OF xs] nl_def by auto
  have l1: "deref h1 l = Some (OSeq KList xs)" using u1 l by (auto intro: uo_deref)
  have x1: "those (map (read_entry h1) xs) = Some (lst m)" using u1 xs by (auto intro: uo_read_entries)
  have r1: "deref h1 r = Some (OSeq KList (map VStr vs))" using u1 assms(2) by (auto intro: uo_deref)
  have n1: "deref h1 nl = Some (OSeq KList [])" by (simp add: h1_def nl_def deref_alloc)
  have fuel1: "length xs - 0 < Suc (seq_len h1 l)" using l1 by (simp add: seq_len_def h_seq_def)
  obtain h2 acc new vs' where
    W: "h_setitem_walk (Suc (seq_len h1 l)) h1 (cls m) k (kconv (cls m) k) l 0 r nl = Some (Inr h2)"
       "setitem_walk (cls m) k (kconv (cls m) k) (lst m) (ArgList vs) [] = Inr (new, ArgList vs')"
       "deref h2 r = Some (OSeq KList (map VStr vs'))" "deref h2 nl = Some (OSeq KList acc)"
       "those (map (read_entry h2) acc) = Some new"
       "r \<notin> set (refs acc)" "nl \<notin> set (refs acc)" "unchanged_outside h1 h2 {r, nl}"
    using h_walk_sim [OF l1 x1 r1 n1 _ rl(2) _ _ rl(3) nlx _ _ fuel1, of "[]" "cls m" k "kconv (cls m) k"]
      lt by auto
  have fuel2: "length vs' < Suc (seq_len h2 r)" using W(3) by (simp add: seq_len_def h_seq_def)
  obtain h3 acc' where
    T: "h_setitem_tail (Suc (seq_len h2 r)) h2 k r nl = Some (Inr h3)" "deref h3 r = Some (OSeq KList [])"
       "deref h3 nl = Some (OSeq KList acc')"
       "those (map (read_entry h3) acc') = Some (new @ map (LItem k) vs')"
       "unchanged_outside h2 h3 {r, nl}"
    using h_tail_sim [OF W(3) W(4) W(5) _ W(6) W(7) fuel2, of k] lt by auto
  have u3: "unchanged_outside h h3 {r, nl}"
    using uo_trans [OF uo_mono [OF u1] uo_trans [OF W(8) T(5)]] by simp
  have s3: "deref h3 self = Some (OInst (cls m) l)"
    using u3 s rl(1) lt(1) by (auto intro: uo_deref)
  define h' where "h' = store_obj h3 self (OInst (cls m) nl)"
  have self3: "self < length (objs h3)" using s3 by (rule deref_Some_less)
  have ents: "\<And>e. e \<in> set (refs acc') \<Longrightarrow> deref h' e = deref h3 e"
  proof -
    fix e assume e: "e \<in> set (refs acc')"
    have "e \<noteq> self" using those_refs_OSeq [OF T(4) e] s3 by auto
    then show "deref h' e = deref h3 e" by (simp add: h'_def deref_store)
  qed
  have "map (read_entry h') acc' = map (read_entry h3) acc'"
    using ents by (rule read_entries_agree)
  then have x': "those (map (read_entry h') acc') = Some (new @ map (LItem k) vs')"
    using T(4) by (simp del: map_eq_conv)
  have v': "view h' self = Some (m\<lparr>lst := new @ map (LItem k) vs'\<rparr>)"
    using x' T(3) self3 lt(1) by (simp add: view_def h_lst_def h'_def deref_store nl_def)
  have run: "h_setitem h self k (VRef r) = Some (Inr h')"
    using a W(1) T(1) s by (simp add: h_setitem_def h_lst_def h'_def)
  have set: "setitem m k (ArgList vs) = Inr (m\<lparr>lst := new @ map (LItem k) vs'\<rparr>)"
    using W(2) by (simp add: setitem_def setitem_tail_list)
  have r': "deref h' r = Some (OSeq KList [])" using T(2) rl(1) by (simp add: h'_def deref_store)
  have "unchanged_outside h h' {self, r}"
  proof -
    have "unchanged_outside h3 h' {self}" unfolding h'_def by (rule uo_store) simp
    moreover have "unchanged_outside h h3 {self, r, nl}" using u3 by (rule uo_mono) auto
    ultimately have "unchanged_outside h h' {self, r, nl}" by (blast intro: uo_trans uo_mono)
    then show ?thesis by (auto simp: unchanged_outside_def nl_def)
  qed
  with run set v' r' show ?thesis by blast
qed

section \<open>\<open>add\<close>, \<open>__delitem__\<close>, \<open>load_state\<close>, \<open>from_state\<close>\<close>

lemma h_add_view:
  assumes "view h self = Some m"
  shows "\<exists>h'. h_add h self k v = Inr h' \<and> view h' self = Some (add m k v)"
proof -
  obtain l es where s: "deref h self = Some (OInst (cls m) l)" and l: "deref h l = Some (OSeq KList es)"
    and es: "those (map (read_entry h) es) = Some (lst m)"
    using assms by (rule view_SomeE)
  define e where "e = length (objs h)"
  define h1 where "h1 = snd (alloc h (OSeq KList [VStr k, VStr v]))"
  define h' where "h' = store_obj h1 l (OSeq KList (es @ [VRef e]))"
  have lt: "self < length (objs h)" "l < length (objs h)"
    using s l by (simp_all add: deref_Some_less)
  have sl: "self \<noteq> l" using s l by auto
  have "deref h1 l = Some (OSeq KList es)"
    using l lt by (simp add: h1_def deref_alloc)
  then have add: "h_add h self k v = Inr h'"
    by (simp add: h_add_def h_lst_def s h_new_pair_def h_append_def Let_def split_def
        h1_def [symmetric] h'_def e_def)
  have ents: "\<And>x. x \<in> set (refs es) \<Longrightarrow> deref h' x = deref h x"
  proof -
    fix x assume x: "x \<in> set (refs es)"
    then have "x \<noteq> l" using view_entries_not_self_lst [OF s l es x] by simp
    moreover have "x < length (objs h)"
      using those_map_Some_refs [OF es x] deref_Some_less by blast
    ultimately show "deref h' x = deref h x"
      by (simp add: h'_def h1_def deref_store deref_alloc)
  qed
  have "map (read_entry h') es = map (read_entry h) es"
    using ents by (rule read_entries_agree)
  moreover have "read_entry h' (VRef e) = Some (LItem k v)"
    using lt by (simp add: h'_def h1_def deref_store deref_alloc e_def)
  moreover have "deref h' self = Some (OInst (cls m) l)"
    using s sl lt by (simp add: h'_def h1_def deref_store deref_alloc)
  moreover have "deref h' l = Some (OSeq KList (es @ [VRef e]))"
    using lt by (simp add: h'_def h1_def deref_store)
  ultimately have "view h' self = Some (add m k v)"
    using es by (simp add: view_def h_lst_def those_snoc add_def del: map_eq_conv)
  with add show ?thesis by blast
qed

lemma h_filter_loop_read:
  assumes "those (map (read_entry h) xs) = Some ents"
  shows "\<exists>ys. h_filter_loop h c k xs new = Inr (new @ ys) \<and> set ys \<subseteq> set xs \<and>
     those (map (read_entry h) ys) = Some (filter (\<lambda>i. kconv c (ekey i) \<noteq> k) ents)"
  using assms
proof (induction xs arbitrary: ents new)
  case Nil
  then show ?case by simp
next
  case (Cons x xs)
  obtain en ents' where ents: "ents = en # ents'" and re: "read_entry h x = Some en"
    and rest: "those (map (read_entry h) xs) = Some ents'"
    using Cons.prems by (auto split: option.splits)
  have key: "h_key h x = Inr (ekey en)" using re by (rule h_key_read_entry)
  show ?case
  proof (cases "kconv c (ekey en) \<noteq> k")
    case True
    obtain ys where "h_filter_loop h c k xs (new @ [x]) = Inr ((new @ [x]) @ ys)" "set ys \<subseteq> set xs"
      "those (map (read_entry h) ys) = Some (filter (\<lambda>i. kconv c (ekey i) \<noteq> k) ents')"
      using Cons.IH [OF rest] by blast
    then show ?thesis using True key re ents by (intro exI [of _ "x # ys"]) auto
  next
    case False
    obtain ys where "h_filter_loop h c k xs new = Inr (new @ ys)" "set ys \<subseteq> set xs"
      "those (map (read_entry h) ys) = Some (filter (\<lambda>i. kconv c (ekey i) \<noteq> k) ents')"
      using Cons.IH [OF rest] by blast
    then show ?thesis using False key ents by (intro exI [of _ ys]) auto
  qed
qed

lemma h_delitem_view:
  assumes "view h s = Some m"
  shows "\<exists>h'. h_delitem h s k = Inr h' \<and> view h' s = Some (delitem m k)"
proof -
  obtain l xs where s: "deref h s = Some (OInst (cls m) l)" and l: "deref h l = Some (OSeq KList xs)"
    and xs: "those (map (read_entry h) xs) = Some (lst m)"
    using assms by (rule view_SomeE)
  obtain ys where f: "h_filter_loop h (cls m) (kconv (cls m) k) xs [] = Inr ys" and sub: "set ys \<subseteq> set xs"
    and rd: "those (map (read_entry h) ys) = Some (filter_lst (cls m) k (lst m))"
    using h_filter_loop_read [OF xs, of "cls m" "kconv (cls m) k" "[]"] by (auto simp: filter_lst_eq)
  define N where "N = length (objs h)"
  define h1 where "h1 = snd (alloc h (OSeq KList ys))"
  define h' where "h' = store_obj h1 s (OInst (cls m) N)"
  have run: "h_delitem h s k = Inr h'"
    using s l f by (simp add: h_delitem_def h_lst_def h_seq_def h'_def h1_def N_def alloc_def)
  have slt: "s < N" using s by (simp add: N_def deref_Some_less)
  have u: "unchanged_outside h h' {s}"
    unfolding h'_def h1_def by (rule uo_trans [OF uo_alloc uo_store]) simp
  have ns: "s \<notin> set (refs ys)"
    using view_entries_not_self_lst [OF s l xs] sub by (auto simp: set_refs)
  have "those (map (read_entry h') ys) = Some (filter_lst (cls m) k (lst m))"
    using uo_read_entries [OF u rd] ns by simp
  moreover have "deref h' s = Some (OInst (cls m) N)" "deref h' N = Some (OSeq KList ys)"
    using slt by (simp_all add: h'_def h1_def N_def deref_store deref_alloc)
  ultimately have "view h' s = Some (delitem m k)"
    by (simp add: view_def h_lst_def delitem_def)
  with run show ?thesis by blast
qed

lemma h_load_state_view:
  assumes "view h s = Some m"
  shows "\<exists>h'. h_load_state h s st = Inr h' \<and> view h' s = Some (load_state m st)"
proof -
  obtain l xs where s: "deref h s = Some (OInst (cls m) l)"
    using assms by (rule view_SomeE)
  obtain nl h1 where n: "h_new_entry_list h st = (nl, h1)" by (cases "h_new_entry_list h st")
  obtain ys where u1: "unchanged_outside h h1 {}" and d1: "deref h1 nl = Some (OSeq KList ys)"
    and N: "length (objs h) \<le> nl" and fr: "set (refs ys) \<subseteq> {x. length (objs h) \<le> x}"
    using h_new_entry_list_fresh [OF n] by blast
  obtain ys' where d1': "deref h1 nl = Some (OSeq KList ys')"
    and rd: "those (map (read_entry h1) ys') = Some (map (\<lambda>(k, v). LItem k v) st)"
    using h_new_entry_list_read [OF n] by blast
  have ys: "ys' = ys" using d1 d1' by simp
  define h' where "h' = store_obj h1 s (OInst (cls m) nl)"
  have run: "h_load_state h s st = Inr h'" using s n by (simp add: h_load_state_def h_lst_def h'_def)
  have slt: "s < length (objs h)" using s by (rule deref_Some_less)
  then have slt1: "s < length (objs h1)" using u1 by (simp add: unchanged_outside_def)
  have ns: "s \<notin> set (refs ys)" using fr slt by auto
  have "those (map (read_entry h') ys) = Some (map (\<lambda>(k, v). LItem k v) st)"
    using uo_read_entries [OF _ rd [unfolded ys], of h' "{s}"] ns
    by (simp add: h'_def uo_store)
  moreover have "deref h' s = Some (OInst (cls m) nl)" "deref h' nl = Some (OSeq KList ys)"
    using slt1 d1 slt N by (simp_all add: h'_def deref_store)
  ultimately have "view h' s = Some (load_state m st)"
    by (simp add: view_def h_lst_def load_state_def)
  with run show ?thesis by blast
qed

lemma h_from_state_view:
  assumes "h_from_state h c st = (s, h')"
  shows "view h' s = Some (from_state c st) \<and> (\<forall>x\<in>set (fp h' s). length (objs h) \<le> x) \<and>
     unchanged_outside h h' {}"
proof -
  obtain nl h1 where n: "h_new_entry_list h st = (nl, h1)" by (cases "h_new_entry_list h st")
  obtain ys where u1: "unchanged_outside h h1 {}" and d1: "deref h1 nl = Some (OSeq KList ys)"
    and N: "length (objs h) \<le> nl" and fr: "set (refs ys) \<subseteq> {x. length (objs h) \<le> x}"
    using h_new_entry_list_fresh [OF n] by blast
  obtain ys' where d1': "deref h1 nl = Some (OSeq KList ys')"
    and rd: "those (map (read_entry h1) ys') = Some (map (\<lambda>(k, v). LItem k v) st)" and len: "length ys' = length st"
    using h_new_entry_list_read [OF n] by blast
  have ys: "ys' = ys" using d1 d1' by simp
  have ini: "h_init h1 c (Some nl) = (s, h')" using assms n by (simp add: h_from_state_def)
  have nlt: "nl < length (objs h1)" using d1 by (rule deref_Some_less)
  show ?thesis
  proof (cases "ys = []")
    case False
    then have s: "s = length (objs h1)" and h': "h' = snd (alloc h1 (OInst c nl))"
      using ini d1 by (simp_all add: h_init_list)
    have "those (map (read_entry h') ys) = Some (map (\<lambda>(k, v). LItem k v) st)"
      using uo_read_entries [OF uo_alloc rd [unfolded ys], of "{}"] h' by simp
    moreover have "unchanged_outside h h' {}" using u1 uo_alloc h' by (blast intro: uo_trans)
    ultimately show ?thesis
      using d1 nlt N fr u1 by (auto simp: view_def h_lst_def s h' deref_alloc fp_def from_state_def init_def
          unchanged_outside_def)
  next
    case True
    then have st: "st = []" using len ys by simp
    have s: "s = Suc (length (objs h1))"
      and h': "h' = snd (alloc (snd (alloc h1 (OSeq KList []))) (OInst c (length (objs h1))))"
      using ini d1 True by (simp_all add: h_init_list)
    have "unchanged_outside h h' {}" using u1 uo_alloc h' by (blast intro: uo_trans)
    then show ?thesis
      using st N u1 by (auto simp: view_def h_lst_def s h' deref_alloc fp_def from_state_def init_def
          unchanged_outside_def)
  qed
qed

section \<open>\<open>copy\<close>\<close>

lemma h_copy_entries_sim:
  assumes "those (map (read_entry h) xs) = Some ents" and "list_all is_litem ents"
    and "memo_ok N h memo" and "N \<le> length (objs h)"
  shows "\<exists>ys memo' h'. h_copy_entries h memo xs = Inr (ys, memo', h') \<and>
     those (map (read_entry h') ys) = Some ents \<and> (\<forall>x\<in>set (refs ys). N \<le> x) \<and>
     unchanged_outside h h' {} \<and> memo_ok N h' memo'"
  using assms
proof (induction xs arbitrary: ents memo h)
  case Nil
  then show ?case by simp
next
  case (Cons x xs)
  obtain e where x: "x = VRef e" using Cons.prems(1) by (cases x) auto
  obtain en ents' where ents: "ents = en # ents'" and re: "read_entry h x = Some en"
    and rest: "those (map (read_entry h) xs) = Some ents'"
    using Cons.prems(1) by (auto split: option.splits)
  obtain k v where en: "en = LItem k v" using Cons.prems(2) ents by (cases en) auto
  have de: "deref h e = Some (OSeq KList [VStr k, VStr v])"
    using re x en by (auto split: option.splits pyobj.splits seqkind.splits list.splits pyval.splits)
  obtain e' memo1 h1 where
    C: "h_copy_entry h memo e = Inr (e', memo1, h1)" "read_entry h1 (VRef e') = Some en"
       "N \<le> e'" "unchanged_outside h h1 {}" "memo_ok N h1 memo1"
  proof (cases "map_of memo e")
    case (Some e')
    then have "N \<le> e'" "deref h e' = deref h e" using Cons.prems(3) by (auto dest: memo_ok_lookup)
    then show ?thesis using that [of e' memo h] Some re x Cons.prems(3) by (simp add: h_copy_entry_def)
  next
    case None
    define h1 where "h1 = snd (alloc h (OSeq KList [VStr k, VStr v]))"
    have u: "unchanged_outside h h1 {}" unfolding h1_def by (rule uo_alloc)
    have d1: "deref h1 (length (objs h)) = Some (OSeq KList [VStr k, VStr v])"
      by (simp add: h1_def deref_alloc)
    have "memo_ok N h1 ((e, length (objs h)) # memo)"
      using memo_ok_uo [OF Cons.prems(3) u] uo_deref [OF u de] d1 Cons.prems(4)
      by (simp add: memo_ok_def)
    then show ?thesis
      using that [of "length (objs h)" "(e, length (objs h)) # memo" h1] None de d1 u Cons.prems(4) en
      by (simp add: h_copy_entry_def all_str_def alloc_def h1_def)
  qed
  have N1: "N \<le> length (objs h1)" using C(4) Cons.prems(4) by (simp add: unchanged_outside_def)
  have rest1: "those (map (read_entry h1) xs) = Some ents'"
    using uo_read_entries [OF C(4) rest] by simp
  have l1: "list_all is_litem ents'" using Cons.prems(2) ents by simp
  obtain ys memo' h' where
    IH: "h_copy_entries h1 memo1 xs = Inr (ys, memo', h')" "those (map (read_entry h') ys) = Some ents'"
        "\<forall>x\<in>set (refs ys). N \<le> x" "unchanged_outside h1 h' {}" "memo_ok N h' memo'"
    using Cons.IH [OF rest1 l1 C(5) N1] by blast
  have "read_entry h' (VRef e') = Some en"
  proof -
    have "those (map (read_entry h') [VRef e']) = Some [en]"
      by (rule uo_read_entries [OF IH(4)]) (use C(2) in simp_all)
    then show ?thesis by (simp split: option.splits)
  qed
  then show ?case using IH C x ents by (auto intro: uo_trans)
qed

lemma h_copy_view:
  assumes "view h self = Some m" and "wf_odict m"
  shows "\<exists>s' h'. h_copy h self = Inr (s', h') \<and> view h' s' = Some m \<and> view h' self = Some m \<and>
     (\<forall>x\<in>set (fp h' s'). length (objs h) \<le> x) \<and> fp h' self = fp h self \<and>
     unchanged_outside h h' {}"
proof -
  obtain l xs where s: "deref h self = Some (OInst (cls m) l)" and l: "deref h l = Some (OSeq KList xs)"
    and xs: "those (map (read_entry h) xs) = Some (lst m)"
    using assms(1) by (rule view_SomeE)
  obtain ys memo h1 where
    C: "h_copy_entries h [] xs = Inr (ys, memo, h1)" "those (map (read_entry h1) ys) = Some (lst m)"
       "\<forall>x\<in>set (refs ys). length (objs h) \<le> x" "unchanged_outside h h1 {}"
    using h_copy_entries_sim [OF xs _ memo_ok_Nil, of "length (objs h)"] assms(2)
    by (auto simp: wf_odict_def)
  define l' where "l' = length (objs h1)"
  define h2 where "h2 = snd (alloc h1 (OSeq KList ys))"
  have a2: "alloc h1 (OSeq KList ys) = (l', h2)" by (simp add: alloc_def l'_def h2_def)
  have d2: "deref h2 l' = Some (OSeq KList ys)" by (simp add: h2_def l'_def deref_alloc)
  have u2: "unchanged_outside h h2 {}" using C(4) uo_alloc unfolding h2_def by (rule uo_trans)
  have N: "length (objs h) \<le> l'" using C(4) by (simp add: l'_def unchanged_outside_def)
  obtain s' h' where ini: "h_init h2 (cls m) (Some l') = (s', h')"
    by (cases "h_init h2 (cls m) (Some l')")
  have cp: "h_copy h self = Inr (s', h')"
    using s l C(1) a2 ini by (simp add: h_copy_def h_lst_def)
  have u': "unchanged_outside h2 h' {}"
    using ini d2 by (auto simp: h_init_list split: if_splits intro: uo_trans uo_alloc)
  have uh: "unchanged_outside h h' {}" using u2 u' by (rule uo_trans)
  have u1': "unchanged_outside h1 h' {}"
    by (rule uo_trans [OF _ u']) (simp add: h2_def uo_alloc)
  have ys': "those (map (read_entry h') ys) = Some (lst m)"
    using uo_read_entries [OF u1' C(2)] by simp
  have len2: "length (objs h2) = Suc l'" by (simp add: h2_def l'_def)
  have new: "view h' s' = Some m \<and> (\<forall>x\<in>set (fp h' s'). length (objs h) \<le> x)"
  proof (cases "ys = []")
    case False
    then have "s' = Suc l'" "h' = snd (alloc h2 (OInst (cls m) l'))"
      using ini d2 len2 by (simp_all add: h_init_list)
    then show ?thesis
      using d2 ys' C(3) N len2 by (simp add: view_def h_lst_def deref_alloc fp_def)
  next
    case True
    then have "lst m = []" using C(2) by simp
    moreover have "s' = Suc (Suc l')"
      "h' = snd (alloc (snd (alloc h2 (OSeq KList []))) (OInst (cls m) (Suc l')))"
      using ini d2 len2 True by (simp_all add: h_init_list)
    ultimately show ?thesis
      using N len2 by (simp add: view_def h_lst_def deref_alloc fp_def)
  qed
  have "fp h' self = fp h self"
    using uo_fp [OF uh] fp_less [OF assms(1)] by simp
  moreover have "view h' self = Some m" using uo_view [OF uh assms(1)] by simp
  ultimately show ?thesis using cp new uh by blast
qed

end
