(* ===== verification/HeapFrame.thy ===== *)
theory HeapFrame
  imports Heap
begin

text \<open>
  Frame lemmas for the methods of \<^theory_text>\<open>Heap\<close>: a call on a map changes no object
  outside its footprint (and, for \<open>__setitem__\<close>, the value list passed), and leaves
  in the footprint only the old objects and new ones (\<open>call_frame\<close>). By induction over
  a sequence of calls (\<open>run_ops\<close>), a map whose footprint is disjoint from the
  receiver's reads the same after the calls.
\<close>

section \<open>\<open>__setitem__\<close>\<close>

text \<open>One round of popping and appending a new entry writes only \<open>r\<close> and \<open>nl\<close>,
  and leaves in \<open>l\<close> a part of what it held and in \<open>nl\<close> one new object more.\<close>

lemma emit_frame:
  assumes "h_pop0 h r = Inr (v, h1)" and "h_new_pair h1 k v = (e, h2)" and "h_append h2 nl (VRef e) = Inr h3"
    and "deref h nl = Some (OSeq KList acc)" and "r \<noteq> nl"
  shows "unchanged_outside h h3 {r, nl} \<and> deref h3 nl = Some (OSeq KList (acc @ [VRef e])) \<and>
     length (objs h) \<le> e \<and>
     (\<forall>ys. h_seq h3 l = Some ys \<longrightarrow> l \<noteq> nl \<longrightarrow> l < length (objs h) \<longrightarrow> (\<exists>zs. h_seq h l = Some zs \<and> set (refs ys) \<subseteq> set (refs zs)))"
proof -
  obtain vs where r: "deref h r = Some (OSeq KList (v # vs))" and h1: "h1 = store_obj h r (OSeq KList vs)"
    using pop_frame [OF assms(1)] by blast
  have e: "e = length (objs h)" and h2: "h2 = snd (alloc h1 (OSeq KList [VStr k, v]))"
    using assms(2) by (simp_all add: h_new_pair_def alloc_def h1 store_obj_def)
  have lt: "r < length (objs h)" "nl < length (objs h)"
    using r assms(4) by (simp_all add: deref_Some_less)
  have n2: "deref h2 nl = Some (OSeq KList acc)"
    using assms(4,5) lt by (simp add: h2 h1 deref_alloc deref_store)
  have h3: "h3 = store_obj h2 nl (OSeq KList (acc @ [VRef e]))"
    using append_frame [OF assms(3)] n2 by auto
  have "unchanged_outside h h3 {r, nl}"
    unfolding h3 h2 h1 by (rule uo_trans [OF uo_trans [OF uo_store uo_alloc] uo_store]) simp_all
  moreover have "deref h3 nl = Some (OSeq KList (acc @ [VRef e]))"
    using lt by (simp add: h3 h2 h1 deref_store deref_alloc)
  moreover have "\<forall>ys. h_seq h3 l = Some ys \<longrightarrow> l \<noteq> nl \<longrightarrow> l < length (objs h) \<longrightarrow> (\<exists>zs. h_seq h l = Some zs \<and> set (refs ys) \<subseteq> set (refs zs))"
    using r lt refs_Cons_subset [of vs v]
    by (auto simp: h3 h2 h1 h_seq_def deref_store deref_alloc e split: if_splits)
  ultimately show ?thesis using e by simp
qed

lemma h_walk_frame:
  assumes "h_setitem_walk n h c k kc l i r nl = Some (Inr h')"
    and "deref h nl = Some (OSeq KList acc)" and "nl \<noteq> l" and "r \<noteq> nl"
    and "set (refs acc) \<subseteq> A" and "\<forall>ys. h_seq h l = Some ys \<longrightarrow> set (refs ys) \<subseteq> A"
    and "\<forall>x. length (objs h) \<le> x \<longrightarrow> x \<in> A"
  shows "unchanged_outside h h' {r, nl} \<and> (\<exists>acc'. deref h' nl = Some (OSeq KList acc') \<and> set (refs acc') \<subseteq> A)"
  using assms
proof (induction n arbitrary: h i acc)
  case 0
  then show ?case by simp
next
  case (Suc n)
  obtain xs where seq: "h_seq h l = Some xs"
    using Suc.prems(1) by (auto split: option.splits)
  show ?case
  proof (cases "length xs \<le> i")
    case True
    then show ?thesis using Suc.prems seq by auto
  next
    case False
    then have i: "i < length xs" by simp
    obtain ik where key: "h_key h (xs ! i) = Inr ik"
      using Suc.prems(1) seq False by (auto split: sum.splits)
    have nlt: "nl < length (objs h)" using Suc.prems(2) by (rule deref_Some_less)
    consider (emit) v h1 e h2 h3 where "kconv c ik = kc" "h_truthy h r" "h_pop0 h r = Inr (v, h1)"
        "h_new_pair h1 k v = (e, h2)" "h_append h2 nl (VRef e) = Inr h3"
        "h_setitem_walk n h3 c k kc l (Suc i) r nl = Some (Inr h')"
      | (skip) "kconv c ik = kc" "\<not> h_truthy h r" "h_setitem_walk n h c k kc l (Suc i) r nl = Some (Inr h')"
      | (keep) h3 where "kconv c ik \<noteq> kc" "h_append h nl (xs ! i) = Inr h3"
        "h_setitem_walk n h3 c k kc l (Suc i) r nl = Some (Inr h')"
      using Suc.prems(1) seq False key
      by (auto split: if_splits sum.splits prod.splits simp: Let_def)
    then show ?thesis
    proof cases
      case emit
      note f = emit_frame [OF emit(3-5) Suc.prems(2,4), of l]
      have llt: "l < length (objs h)" using seq by (auto simp: h_seq_def deref_def split: if_splits)
      have A3: "\<forall>ys. h_seq h3 l = Some ys \<longrightarrow> set (refs ys) \<subseteq> A"
        using f Suc.prems(3,6) llt by fastforce
      have acc3: "set (refs (acc @ [VRef e])) \<subseteq> A" using Suc.prems(5,7) f by auto
      have fresh3: "\<forall>x. length (objs h3) \<le> x \<longrightarrow> x \<in> A"
        using f Suc.prems(7) by (auto simp: unchanged_outside_def)
      have IH: "unchanged_outside h3 h' {r, nl} \<and> (\<exists>acc'. deref h' nl = Some (OSeq KList acc') \<and> set (refs acc') \<subseteq> A)"
        using Suc.IH [OF emit(6) _ Suc.prems(3,4) acc3 A3 fresh3] f by blast
      then show ?thesis using f by (blast intro: uo_trans)
    next
      case skip
      then show ?thesis using Suc.IH [OF skip(3) Suc.prems(2-7)] by blast
    next
      case keep
      have h3: "h3 = store_obj h nl (OSeq KList (acc @ [xs ! i]))"
        using append_frame [OF keep(2)] Suc.prems(2) by auto
      have u3: "unchanged_outside h h3 {r, nl}" unfolding h3 by (rule uo_store) simp
      have n3: "deref h3 nl = Some (OSeq KList (acc @ [xs ! i]))" using nlt by (simp add: h3 deref_store)
      have A3: "\<forall>ys. h_seq h3 l = Some ys \<longrightarrow> set (refs ys) \<subseteq> A"
        using Suc.prems(3,6) by (simp add: h3 h_seq_def deref_store)
      have acc3: "set (refs (acc @ [xs ! i])) \<subseteq> A"
        using Suc.prems(5,6) seq refs_nth_subset [OF i] by auto
      have fresh3: "\<forall>x. length (objs h3) \<le> x \<longrightarrow> x \<in> A" using Suc.prems(7) by (simp add: h3)
      show ?thesis
        using Suc.IH [OF keep(3) n3 Suc.prems(3,4) acc3 A3 fresh3] u3 by (blast intro: uo_trans)
    qed
  qed
qed

lemma h_tail_frame:
  assumes "h_setitem_tail n h k r nl = Some (Inr h')"
    and "deref h nl = Some (OSeq KList acc)" and "r \<noteq> nl"
    and "set (refs acc) \<subseteq> A" and "\<forall>x. length (objs h) \<le> x \<longrightarrow> x \<in> A"
  shows "unchanged_outside h h' {r, nl} \<and> (\<exists>acc'. deref h' nl = Some (OSeq KList acc') \<and> set (refs acc') \<subseteq> A)"
  using assms
proof (induction n arbitrary: h acc)
  case 0
  then show ?case by simp
next
  case (Suc n)
  consider (emit) v h1 e h2 h3 where "h_truthy h r" "h_pop0 h r = Inr (v, h1)"
      "h_new_pair h1 k v = (e, h2)" "h_append h2 nl (VRef e) = Inr h3"
      "h_setitem_tail n h3 k r nl = Some (Inr h')"
    | (stop) "\<not> h_truthy h r" "h' = h"
    using Suc.prems(1) by (auto split: if_splits sum.splits prod.splits simp: Let_def)
  then show ?case
  proof cases
    case emit
    note f = emit_frame [OF emit(2-4) Suc.prems(2,3), of nl]
    have acc3: "set (refs (acc @ [VRef e])) \<subseteq> A" using Suc.prems(4,5) f by auto
    have fresh3: "\<forall>x. length (objs h3) \<le> x \<longrightarrow> x \<in> A"
      using f Suc.prems(5) by (auto simp: unchanged_outside_def)
    show ?thesis
      using Suc.IH [OF emit(5) _ Suc.prems(3) acc3 fresh3] f by (blast intro: uo_trans)
  next
    case stop
    then show ?thesis using Suc.prems(2,4) by auto
  qed
qed

section \<open>One call\<close>

lemma rebind_call_frame:
  assumes "deref h s = Some (OInst c l)" and "unchanged_outside h h1 W"
    and "deref h1 nl = Some (OSeq KList ys)" and "length (objs h) \<le> nl"
    and "set (refs ys) \<subseteq> set (fp h s) \<union> {x. length (objs h) \<le> x}"
    and "W \<subseteq> set (fp h s) \<union> W' \<union> {x. length (objs h) \<le> x}"
  shows "call_frame h (store_obj h1 s (OInst c nl)) s W'"
proof -
  note r = rebind_frame [OF assms(1-5)]
  have "unchanged_outside h (store_obj h1 s (OInst c nl)) ((insert s W) - {x. length (objs h) \<le> x})"
    using r by (blast intro: uo_fresh)
  moreover have "insert s W - {x. length (objs h) \<le> x} \<subseteq> set (fp h s) \<union> W'"
    using assms(6) fp_inst_mem [OF assms(1)] by auto
  ultimately show ?thesis using r by (auto simp: call_frame_def intro: uo_mono)
qed

lemma add_frame: "h_add h s k v = Inr h' \<Longrightarrow> call_frame h h' s {}"
proof -
  assume a: "h_add h s k v = Inr h'"
  obtain c l where s: "deref h s = Some (OInst c l)"
    using a by (auto simp: h_add_def h_lst_def split: option.splits pyobj.splits)
  define N where "N = length (objs h)"
  define h1 where "h1 = snd (alloc h (OSeq KList [VStr k, VStr v]))"
  have ap: "h_append h1 l (VRef N) = Inr h'"
    using a s by (simp add: h_add_def h_lst_def h_new_pair_def alloc_def h1_def N_def)
  obtain xs where l1: "deref h1 l = Some (OSeq KList xs)" and h': "h' = store_obj h1 l (OSeq KList (xs @ [VRef N]))"
    using append_frame [OF ap] by blast
  have slt: "s < N" using s by (simp add: N_def deref_Some_less)
  have sl: "s \<noteq> l" using s l1 slt by (auto simp: h1_def deref_alloc N_def)
  have llt: "l < length (objs h1)" using l1 by (rule deref_Some_less)
  have u: "unchanged_outside h h' (set (fp h s))"
    unfolding h' h1_def by (rule uo_trans [OF uo_alloc uo_store]) (simp add: fp_inst_mem [OF s])
  have fp': "fp h' s = s # l # refs (xs @ [VRef N])"
    using s l1 sl llt slt by (simp add: fp_def h' deref_store h1_def deref_alloc N_def)
  have "set (refs xs) \<subseteq> set (fp h s) \<union> {x. N \<le> x}"
  proof (cases "l = N")
    case True
    then have "xs = [VStr k, VStr v]" using l1 by (simp add: h1_def deref_alloc N_def)
    then show ?thesis by simp
  next
    case False
    then have "deref h l = Some (OSeq KList xs)" using l1 by (simp add: h1_def deref_alloc N_def)
    then show ?thesis using s by (auto simp: fp_def)
  qed
  then show "call_frame h h' s {}"
    using u fp' fp_inst_mem [OF s] by (auto simp: call_frame_def N_def)
qed

lemma delitem_frame: "h_delitem h s k = Inr h' \<Longrightarrow> call_frame h h' s {}"
proof -
  assume a: "h_delitem h s k = Inr h'"
  obtain c l xs ys where s: "deref h s = Some (OInst c l)" and seq: "h_seq h l = Some xs"
    and f: "h_filter_loop h c (kconv c k) xs [] = Inr ys"
    and h': "h' = store_obj (snd (alloc h (OSeq KList ys))) s (OInst c (length (objs h)))"
    using a by (auto simp: h_delitem_def h_lst_def alloc_def split: option.splits pyobj.splits sum.splits)
  have "set (refs ys) \<subseteq> set (refs xs)"
    using h_filter_loop_subset [OF f] by (auto simp: set_refs)
  moreover have "set (refs xs) \<subseteq> set (fp h s)"
    using s seq by (auto simp: fp_def h_seq_def split: option.splits pyobj.splits)
  ultimately show "call_frame h h' s {}"
    unfolding h' by (intro rebind_call_frame [OF s uo_alloc]) (auto simp: deref_alloc)
qed

lemma load_state_frame: "h_load_state h s st = Inr h' \<Longrightarrow> call_frame h h' s {}"
proof -
  assume a: "h_load_state h s st = Inr h'"
  obtain c l nl h1 where s: "deref h s = Some (OInst c l)" and n: "h_new_entry_list h st = (nl, h1)"
    and h': "h' = store_obj h1 s (OInst c nl)"
    using a by (auto simp: h_load_state_def h_lst_def split: option.splits pyobj.splits prod.splits)
  obtain ys where "unchanged_outside h h1 {}" "deref h1 nl = Some (OSeq KList ys)" "length (objs h) \<le> nl"
    "set (refs ys) \<subseteq> {x. length (objs h) \<le> x}"
    using h_new_entry_list_fresh [OF n] by blast
  then show "call_frame h h' s {}" unfolding h' by (intro rebind_call_frame [OF s]) auto
qed

lemma replace_frame: "h_replace subn h s p r = Inr (n, h') \<Longrightarrow> call_frame h h' s {}"
proof -
  assume a: "h_replace subn h s p r = Inr (n, h')"
  obtain c l kvs nl h1 where s: "deref h s = Some (OInst c l)" and n: "h_new_entry_list h kvs = (nl, h1)"
    and h': "h' = store_obj h1 s (OInst c nl)"
    using a by (auto simp: h_replace_def h_lst_def split: option.splits pyobj.splits prod.splits sum.splits)
  obtain ys where "unchanged_outside h h1 {}" "deref h1 nl = Some (OSeq KList ys)" "length (objs h) \<le> nl"
    "set (refs ys) \<subseteq> {x. length (objs h) \<le> x}"
    using h_new_entry_list_fresh [OF n] by blast
  then show "call_frame h h' s {}" unfolding h' by (intro rebind_call_frame [OF s]) auto
qed

lemma setitem_frame:
  "h_setitem h s k (VRef r) = Some (Inr h') \<Longrightarrow> r < length (objs h) \<Longrightarrow> call_frame h h' s {r}"
proof -
  assume a: "h_setitem h s k (VRef r) = Some (Inr h')" and rlt: "r < length (objs h)"
  define N where "N = length (objs h)"
  define h1 where "h1 = snd (alloc h (OSeq KList []))"
  define A where "A = set (fp h s) \<union> {x. N \<le> x}"
  obtain c l where s: "deref h s = Some (OInst c l)"
    using a by (auto simp: h_setitem_def h_lst_def split: option.splits pyobj.splits)
  obtain h2 h3 where
    W: "h_setitem_walk (Suc (seq_len h1 l)) h1 c k (kconv c k) l 0 r N = Some (Inr h2)" and
    T: "h_setitem_tail (Suc (seq_len h2 r)) h2 k r N = Some (Inr h3)" and
    h': "h' = store_obj h3 s (OInst c N)"
    using a s by (auto simp: h_setitem_def h_lst_def alloc_def h1_def N_def split: option.splits sum.splits
        simp del: h_setitem_walk.simps h_setitem_tail.simps)
  have n1: "deref h1 N = Some (OSeq KList [])" by (simp add: h1_def N_def deref_alloc)
  have u1: "unchanged_outside h h1 {}" unfolding h1_def by (rule uo_alloc)
  have len1: "length (objs h1) = Suc N" by (simp add: h1_def N_def)
  have rN: "r \<noteq> N" using rlt by (simp add: N_def)
  have fresh1: "\<forall>x. length (objs h1) \<le> x \<longrightarrow> x \<in> A" by (simp add: A_def len1)
  have w: "unchanged_outside h1 h2 {r, N} \<and> (\<exists>acc. deref h2 N = Some (OSeq KList acc) \<and> set (refs acc) \<subseteq> A)"
  proof (cases "l = N")
    case True
    then have "h2 = h1" using W n1 by (simp add: seq_len_def h_seq_def)
    then show ?thesis using n1 by auto
  next
    case False
    have "\<forall>ys. h_seq h1 l = Some ys \<longrightarrow> set (refs ys) \<subseteq> A"
      using s False by (auto simp: A_def h_seq_def h1_def deref_alloc N_def fp_def split: option.splits pyobj.splits)
    then show ?thesis
      using h_walk_frame [OF W n1 _ rN _ _ fresh1] False by auto
  qed
  then obtain acc where n2: "deref h2 N = Some (OSeq KList acc)" and acc: "set (refs acc) \<subseteq> A"
    by blast
  have fresh2: "\<forall>x. length (objs h2) \<le> x \<longrightarrow> x \<in> A"
    using w len1 by (auto simp: A_def unchanged_outside_def)
  obtain acc' where t: "unchanged_outside h2 h3 {r, N}" "deref h3 N = Some (OSeq KList acc')" "set (refs acc') \<subseteq> A"
    using h_tail_frame [OF T n2 rN acc fresh2] by blast
  have u3: "unchanged_outside h h3 {r, N}"
    using uo_mono [OF u1] w t(1) by (blast intro: uo_trans)
  show "call_frame h h' s {r}"
    unfolding h' using t(2,3) u3 by (intro rebind_call_frame [OF s]) (auto simp: A_def N_def)
qed

lemma item_set_frame: "h_item_set h s i j v = Inr h' \<Longrightarrow> call_frame h h' s {}"
proof -
  assume a: "h_item_set h s i j v = Inr h'"
  obtain c l where s: "deref h s = Some (OInst c l)"
    using a by (auto simp: h_item_set_def h_items_def h_lst_def split: option.splits pyobj.splits)
  obtain kd xs where l: "deref h l = Some (OSeq kd xs)"
    using a s by (auto simp: h_item_set_def h_items_def h_lst_def split: option.splits pyobj.splits seqkind.splits)
  have "\<exists>it h1. h_items h s = Inr (it, h1) \<and> unchanged_outside h h1 {} \<and> h_seq h1 it = Some xs"
  proof (cases kd)
    case KList
    then have "h_items h s = Inr (fst (alloc h (OSeq KList xs)), snd (alloc h (OSeq KList xs)))"
      using s l by (simp add: h_items_def h_lst_def alloc_def)
    moreover have "h_seq (snd (alloc h (OSeq KList xs))) (fst (alloc h (OSeq KList xs))) = Some xs"
      by (simp add: h_seq_def deref_alloc)
    ultimately show ?thesis using uo_alloc by blast
  next
    case KTuple
    then show ?thesis using s l by (simp add: h_items_def h_lst_def h_seq_def)
  qed
  then obtain it h1 where it: "h_items h s = Inr (it, h1)" and u1: "unchanged_outside h h1 {}"
    and seq: "h_seq h1 it = Some xs"
    by blast
  obtain e where i: "i < length xs" and xe: "xs ! i = VRef e" and st: "py_list_store h1 e j (VStr v) = Inr h'"
    using a it seq by (auto simp: h_item_set_def split: if_splits pyval.splits)
  obtain ys where e1: "deref h1 e = Some (OSeq KList ys)" and j: "j < length ys"
    and h': "h' = store_obj h1 e (OSeq KList (ys[j := VStr v]))"
    using st by (auto simp: py_list_store_def split: option.splits pyobj.splits seqkind.splits if_splits)
  have efp: "e \<in> set (fp h s)" using s l refs_nth [OF i xe] by (simp add: fp_def)
  have slt: "s < length (objs h)" using s by (rule deref_Some_less)
  have s1: "deref h1 s = Some (OInst c l)" using u1 s by (auto intro: uo_deref)
  have se: "s \<noteq> e" using s1 e1 by auto
  have u: "unchanged_outside h h' (set (fp h s))"
    unfolding h' using u1 uo_store [OF efp] by (blast intro: uo_trans uo_mono)
  have "set (fp h' s) \<subseteq> set (fp h s)"
  proof (cases "l = e")
    case True
    have "set (refs (ys[j := VStr v])) \<subseteq> set (refs ys)"
      by (auto simp: set_refs dest: set_update_subset_insert [THEN subsetD])
    moreover have "deref h1 l = Some (OSeq kd xs)" using u1 l by (auto intro: uo_deref)
    ultimately show ?thesis
      using True s s1 se e1 l by (auto simp: fp_def h' deref_store deref_Some_less)
  next
    case False
    have "deref h1 l = Some (OSeq kd xs)" using u1 l by (auto intro: uo_deref)
    then show ?thesis
      using False s s1 se l e1 by (auto simp: fp_def h' deref_store deref_Some_less)
  qed
  then show "call_frame h h' s {}" using u by (auto simp: call_frame_def)
qed

lemma run_op_frame:
  "run_op subn h s op = Some (Inr h') \<Longrightarrow> \<forall>r\<in>hop_writes op. r < length (objs h) \<Longrightarrow>
   call_frame h h' s (hop_writes op)"
  by (cases op)
     (auto simp: add_frame delitem_frame load_state_frame item_set_frame setitem_frame
       dest!: map_sum_snd_Inr intro: replace_frame)

section \<open>A sequence of calls\<close>

lemma run_ops_frame:
  assumes "run_ops subn h s ops = Some (Inr h')" and "F \<inter> set (fp h s) = {}"
    and "\<forall>x\<in>F. x < length (objs h)"
    and "\<forall>op\<in>set ops. \<forall>r\<in>hop_writes op. r < length (objs h) \<and> r \<notin> F"
  shows "\<forall>x\<in>F. deref h' x = deref h x"
  using assms
proof (induction ops arbitrary: h)
  case Nil
  then show ?case by simp
next
  case (Cons op ops)
  obtain h1 where op: "run_op subn h s op = Some (Inr h1)" and rest: "run_ops subn h1 s ops = Some (Inr h')"
    using Cons.prems(1) by (auto split: option.splits sum.splits)
  have cf: "call_frame h h1 s (hop_writes op)"
    using run_op_frame [OF op] Cons.prems(4) by simp
  then have u: "unchanged_outside h h1 (set (fp h s) \<union> hop_writes op)"
    and fp1: "set (fp h1 s) \<subseteq> set (fp h s) \<union> {x. length (objs h) \<le> x}"
    by (simp_all add: call_frame_def)
  have len: "length (objs h) \<le> length (objs h1)" using u by (simp add: unchanged_outside_def)
  have same: "\<forall>x\<in>F. deref h1 x = deref h x"
    using u Cons.prems(2,3,4) by (auto simp: unchanged_outside_def)
  have "F \<inter> set (fp h1 s) = {}" using fp1 Cons.prems(2,3) by fastforce
  moreover have "\<forall>x\<in>F. x < length (objs h1)" using Cons.prems(3) len by auto
  moreover have "\<forall>op\<in>set ops. \<forall>r\<in>hop_writes op. r < length (objs h1) \<and> r \<notin> F"
    using Cons.prems(4) len by fastforce
  ultimately have "\<forall>x\<in>F. deref h' x = deref h1 x" using Cons.IH [OF rest] by blast
  with same show ?case by simp
qed

lemma run_ops_view:
  assumes "run_ops subn h s ops = Some (Inr h')" and "view h t = Some m"
    and "set (fp h t) \<inter> set (fp h s) = {}"
    and "\<forall>op\<in>set ops. \<forall>r\<in>hop_writes op. r < length (objs h) \<and> r \<notin> set (fp h t)"
  shows "view h' t = Some m"
proof -
  have "\<forall>x\<in>set (fp h t). deref h' x = deref h x"
    using run_ops_frame [OF assms(1,3) fp_less [OF assms(2)] assms(4)] .
  then have "view h' t = view h t" by (intro view_agree) auto
  with assms(2) show ?thesis by simp
qed

end
