(* ===== verification/HeapTotal.thy ===== *)
theory HeapTotal
  imports HeapSim HeapFrame
begin

text \<open>
  Termination and liveness of the store model of \<^theory_text>\<open>Heap\<close>.
  The two loops of \<open>__setitem__\<close> run on fuel; here the fuel that \<open>h_setitem\<close> gives
  them is shown to be enough on every store, also when the value list passed is
  \<open>m.lst\<close> itself, and more fuel gives the same result (\<open>h_setitem_walk_mono\<close>).
  Hence every sequence of calls on a map returns.
\<close>

section \<open>Termination of the loops of \<open>__setitem__\<close>\<close>

lemma seq_len_alloc: "l < length (objs h) \<Longrightarrow> seq_len (snd (alloc h x)) l = seq_len h l"
  by (simp add: seq_len_def h_seq_def deref_alloc)

lemma seq_len_store_other: "r \<noteq> l \<Longrightarrow> seq_len (store_obj h r x) l = seq_len h l"
  by (simp add: seq_len_def h_seq_def deref_store)

lemma seq_len_pop:
  "h_pop0 h r = Inr (v, h1) \<Longrightarrow> seq_len h1 l \<le> seq_len h l \<and> (l = r \<longrightarrow> seq_len h1 l < seq_len h l)"
  using pop_frame [of h r v h1]
  by (auto simp: seq_len_def h_seq_def deref_store dest: deref_Some_less)

lemma length_pop: "h_pop0 h r = Inr (v, h1) \<Longrightarrow> length (objs h1) = length (objs h)"
  using pop_frame [of h r v h1] by auto

lemma append_shape: "h_append h r x = Inr h1 \<Longrightarrow> h1 = store_obj h r (OSeq KList (the (h_seq h r) @ [x]))"
  using append_frame [of h r x h1] by (auto simp: h_seq_def)

lemma h_setitem_walk_total:
  "nl \<noteq> l \<Longrightarrow> seq_len h l - i < n \<Longrightarrow> \<exists>y. h_setitem_walk n h c k kc l i r nl = Some y"
proof (induction n arbitrary: h i)
  case 0
  then show ?case by simp
next
  case (Suc n)
  show ?case
  proof (cases "h_seq h l")
    case None
    then show ?thesis by simp
  next
    case (Some xs)
    then have llt: "l < length (objs h)" by (auto simp: h_seq_def deref_def split: if_splits)
    have len: "seq_len h l = length xs" using Some by (simp add: seq_len_def)
    show ?thesis
    proof (cases "length xs \<le> i")
      case True
      then show ?thesis using Some by simp
    next
      case False
      have fuel: "\<And>h'. seq_len h' l \<le> seq_len h l \<Longrightarrow> seq_len h' l - Suc i < n"
        using Suc.prems(2) False len by linarith
      have emit: "\<And>v h1 e h2 h3. h_pop0 h r = Inr (v, h1) \<Longrightarrow> h_new_pair h1 k v = (e, h2) \<Longrightarrow>
          h_append h2 nl (VRef e) = Inr h3 \<Longrightarrow> seq_len h3 l \<le> seq_len h l"
      proof -
        fix v h1 e h2 h3
        assume p: "h_pop0 h r = Inr (v, h1)" and a: "h_new_pair h1 k v = (e, h2)"
          and ap: "h_append h2 nl (VRef e) = Inr h3"
        have "h2 = snd (alloc h1 (OSeq KList [VStr k, v]))" using a by (simp add: h_new_pair_def alloc_def)
        then have "seq_len h2 l = seq_len h1 l"
          using llt length_pop [OF p] by (simp add: seq_len_alloc)
        moreover have "seq_len h3 l = seq_len h2 l"
          using append_shape [OF ap] Suc.prems(1) by (simp add: seq_len_store_other)
        ultimately show "seq_len h3 l \<le> seq_len h l" using seq_len_pop [OF p] by simp
      qed
      have keep: "\<And>h3. h_append h nl (xs ! i) = Inr h3 \<Longrightarrow> seq_len h3 l \<le> seq_len h l"
      proof -
        fix h3 assume "h_append h nl (xs ! i) = Inr h3"
        then show "seq_len h3 l \<le> seq_len h l"
          using append_shape [OF \<open>h_append h nl (xs ! i) = Inr h3\<close>] Suc.prems(1)
          by (simp add: seq_len_store_other)
      qed
      show ?thesis
        using Some False Suc.IH [OF Suc.prems(1) fuel] emit keep
        by (auto split: sum.splits prod.splits simp: Let_def)
    qed
  qed
qed

lemma emit_seq_len:
  assumes "h_pop0 h r = Inr (v, h1)" and "h_new_pair h1 k v = (e, h2)" and "h_append h2 nl (VRef e) = Inr h3"
    and "nl \<noteq> l" and "l < length (objs h)"
  shows "seq_len h3 l \<le> seq_len h l \<and> (l = r \<longrightarrow> seq_len h3 l < seq_len h l)"
proof -
  have "h2 = snd (alloc h1 (OSeq KList [VStr k, v]))" using assms(2) by (simp add: h_new_pair_def alloc_def)
  then have "seq_len h2 l = seq_len h1 l"
    using assms(5) length_pop [OF assms(1)] by (simp add: seq_len_alloc)
  moreover have "seq_len h3 l = seq_len h2 l"
    using append_shape [OF assms(3)] assms(4) by (simp add: seq_len_store_other)
  ultimately show ?thesis using seq_len_pop [OF assms(1), of l] by auto
qed

lemma emit_length:
  assumes "h_pop0 h r = Inr (v, h1)" and "h_new_pair h1 k v = (e, h2)" and "h_append h2 nl (VRef e) = Inr h3"
  shows "length (objs h) \<le> length (objs h3)"
proof -
  have "h2 = snd (alloc h1 (OSeq KList [VStr k, v]))" using assms(2) by (simp add: h_new_pair_def alloc_def)
  then show ?thesis
    using length_pop [OF assms(1)] append_shape [OF assms(3)] by (simp add: store_obj_def)
qed

lemma append_length: "h_append h r x = Inr h1 \<Longrightarrow> length (objs h1) = length (objs h)"
  using append_shape [of h r x h1] by (simp add: store_obj_def)

lemma h_setitem_walk_length:
  "h_setitem_walk n h c k kc l i r nl = Some (Inr h') \<Longrightarrow> length (objs h) \<le> length (objs h')"
proof (induction n arbitrary: h i)
  case 0
  then show ?case by simp
next
  case (Suc n)
  obtain xs where seq: "h_seq h l = Some xs"
    using Suc.prems by (auto split: option.splits)
  show ?case
  proof (cases "length xs \<le> i")
    case True
    then show ?thesis using Suc.prems seq by simp
  next
    case False
    obtain ik where key: "h_key h (xs ! i) = Inr ik"
      using Suc.prems seq False by (auto split: sum.splits)
    consider (emit) v h1 e h2 h3 where "h_pop0 h r = Inr (v, h1)"
        "h_new_pair h1 k v = (e, h2)" "h_append h2 nl (VRef e) = Inr h3"
        "h_setitem_walk n h3 c k kc l (Suc i) r nl = Some (Inr h')"
      | (skip) "h_setitem_walk n h c k kc l (Suc i) r nl = Some (Inr h')"
      | (keep) h3 where "h_append h nl (xs ! i) = Inr h3"
        "h_setitem_walk n h3 c k kc l (Suc i) r nl = Some (Inr h')"
      using Suc.prems seq False key
      by (auto split: if_splits sum.splits prod.splits simp: Let_def)
    then show ?thesis
    proof cases
      case emit
      then show ?thesis using emit_length [OF emit(1-3)] Suc.IH [OF emit(4)] by simp
    next
      case skip
      then show ?thesis using Suc.IH by blast
    next
      case keep
      then show ?thesis using append_length [OF keep(1)] Suc.IH [OF keep(2)] by simp
    qed
  qed
qed

lemma h_setitem_tail_total:
  "r \<noteq> nl \<Longrightarrow> r < length (objs h) \<Longrightarrow> seq_len h r < n \<Longrightarrow> \<exists>y. h_setitem_tail n h k r nl = Some y"
proof (induction n arbitrary: h)
  case 0
  then show ?case by simp
next
  case (Suc n)
  have step: "\<And>v h1 e h2 h3. h_pop0 h r = Inr (v, h1) \<Longrightarrow> h_new_pair h1 k v = (e, h2) \<Longrightarrow>
      h_append h2 nl (VRef e) = Inr h3 \<Longrightarrow> \<exists>y. h_setitem_tail n h3 k r nl = Some y"
  proof -
    fix v h1 e h2 h3
    assume p: "h_pop0 h r = Inr (v, h1)" and a: "h_new_pair h1 k v = (e, h2)"
      and ap: "h_append h2 nl (VRef e) = Inr h3"
    have "seq_len h3 r < seq_len h r"
      using emit_seq_len [OF p a ap, of r] Suc.prems(1,2) by simp
    moreover have "length (objs h) \<le> length (objs h3)" by (rule emit_length [OF p a ap])
    ultimately show "\<exists>y. h_setitem_tail n h3 k r nl = Some y"
      using Suc.IH Suc.prems by simp
  qed
  then show ?case by (auto split: sum.splits prod.splits simp: Let_def)
qed

lemma h_setitem_walk_mono:
  "h_setitem_walk n h c k kc l i r nl = Some y \<Longrightarrow> n \<le> m \<Longrightarrow> h_setitem_walk m h c k kc l i r nl = Some y"
proof (induction n arbitrary: m h i)
  case 0
  then show ?case by simp
next
  case (Suc n)
  obtain m' where m: "m = Suc m'" "n \<le> m'" using Suc.prems(2) by (cases m) auto
  note IH = Suc.IH [OF _ m(2)]
  show ?case
  proof (cases "h_seq h l")
    case None
    then show ?thesis using Suc.prems(1) by (simp add: m)
  next
    case (Some xs)
    show ?thesis
    proof (cases "length xs \<le> i")
      case True
      then show ?thesis using Suc.prems(1) Some by (simp add: m)
    next
      case False
      show ?thesis
      proof (cases "h_key h (xs ! i)")
        case (Inl e)
        then show ?thesis using Suc.prems(1) Some False by (simp add: m)
      next
        case (Inr ik)
        then show ?thesis using Suc.prems(1) Some False IH
          by (auto simp: m split: if_splits sum.splits prod.splits)
      qed
    qed
  qed
qed

text \<open>
  C15: The \<open>for i in self.lst\<close> loop of \<open>__setitem__\<close> terminates: started at
  index \<open>i\<close> on a list \<open>l\<close> other than the new list \<open>nl\<close>, with more fuel than the
  entries left to visit, it returns a result, and every larger fuel gives that same
  result. The value list \<open>r\<close> is arbitrary, so this covers \<open>m[k] = m.lst\<close>, where
  each pop shortens the list being walked.
\<close>

theorem h_setitem_walk_fuel:
  "nl \<noteq> l \<Longrightarrow> seq_len h l - i < n \<Longrightarrow> \<exists>y. \<forall>m\<ge>n. h_setitem_walk m h c k kc l i r nl = Some y"
proof -
  assume "nl \<noteq> l" "seq_len h l - i < n"
  then obtain y where "h_setitem_walk n h c k kc l i r nl = Some y" by (blast dest: h_setitem_walk_total)
  then show ?thesis by (blast intro: h_setitem_walk_mono)
qed

text \<open>With the fuel \<open>h_setitem\<close> gives its two loops, \<open>m[k] = valuelist\<close> returns on
  every store when the value list is a reference to an object of the store.\<close>

lemma h_setitem_returns:
  assumes "case v of VRef r \<Rightarrow> r < length (objs h) | VStr t \<Rightarrow> True"
  shows "\<exists>y. h_setitem h s k v = Some y"
proof (cases v)
  case (VStr t)
  then show ?thesis by (simp add: h_setitem_def)
next
  case (VRef r)
  define N where "N = length (objs h)"
  define h1 where "h1 = snd (alloc h (OSeq KList []))"
  have a: "alloc h (OSeq KList []) = (N, h1)" by (simp add: alloc_def N_def h1_def)
  have rN: "r \<noteq> N" "r < length (objs h1)" using assms VRef by (simp_all add: N_def h1_def)
  have walk: "\<And>c l. \<exists>y. h_setitem_walk (Suc (seq_len h1 l)) h1 c k (kconv c k) l 0 r N = Some y"
  proof -
    fix c l
    show "\<exists>y. h_setitem_walk (Suc (seq_len h1 l)) h1 c k (kconv c k) l 0 r N = Some y"
    proof (cases "l = N")
      case True
      then show ?thesis by (simp add: h1_def N_def h_seq_def deref_alloc)
    next
      case False
      then show ?thesis by (intro h_setitem_walk_total) auto
    qed
  qed
  have tail: "\<And>h2. h_setitem_walk (Suc (seq_len h1 l)) h1 c k (kconv c k) l 0 r N = Some (Inr h2) \<Longrightarrow>
      \<exists>y. h_setitem_tail (Suc (seq_len h2 r)) h2 k r N = Some y" for c l
  proof -
    fix h2 assume w: "h_setitem_walk (Suc (seq_len h1 l)) h1 c k (kconv c k) l 0 r N = Some (Inr h2)"
    have "length (objs h1) \<le> length (objs h2)" by (rule h_setitem_walk_length [OF w])
    then show "\<exists>y. h_setitem_tail (Suc (seq_len h2 r)) h2 k r N = Some y"
      using rN by (intro h_setitem_tail_total) auto
  qed
  show ?thesis
  proof (cases "h_lst h s")
    case (Inl e)
    then show ?thesis using VRef by (simp add: h_setitem_def)
  next
    case (Inr cl)
    obtain c l where cl: "cl = (c, l)" by (cases cl)
    obtain y where w: "h_setitem_walk (Suc (seq_len h1 l)) h1 c k (kconv c k) l 0 r N = Some y"
      using walk by blast
    show ?thesis
    proof (cases y)
      case (Inl e)
      then show ?thesis using VRef Inr cl a w
        by (simp add: h_setitem_def del: h_setitem_walk.simps)
    next
      case (Inr h2)
      obtain z where "h_setitem_tail (Suc (seq_len h2 r)) h2 k r N = Some z"
        using tail w Inr by blast
      then show ?thesis using VRef \<open>h_lst h s = Inr cl\<close> cl a w Inr
        by (cases z) (simp_all add: h_setitem_def del: h_setitem_walk.simps h_setitem_tail.simps)
    qed
  qed
qed

section \<open>Sequences of calls\<close>

text \<open>
  C16: A sequence of calls on a map returns, normally or with an exception, whenever
  every value list passed to \<open>__setitem__\<close> is an object of the store.
\<close>

theorem run_ops_total:
  "\<forall>op\<in>set ops. \<forall>r\<in>hop_writes op. r < length (objs h) \<Longrightarrow> \<exists>y. run_ops subn h s ops = Some y"
proof (induction ops arbitrary: h)
  case Nil
  then show ?case by simp
next
  case (Cons op ops)
  have "\<exists>y. run_op subn h s op = Some y"
  proof (cases op)
    case (HSet k r)
    then show ?thesis using Cons.prems h_setitem_returns [where v = "VRef r" and h = h and s = s and k = k] by simp
  qed simp_all
  then obtain y where y: "run_op subn h s op = Some y" by blast
  show ?case
  proof (cases y)
    case (Inl e)
    then show ?thesis using y by simp
  next
    case (Inr h1)
    have "call_frame h h1 s (hop_writes op)" using run_op_frame [OF y [unfolded Inr]] Cons.prems by simp
    then have "length (objs h) \<le> length (objs h1)" by (simp add: call_frame_def unchanged_outside_def)
    then have "\<forall>op\<in>set ops. \<forall>r\<in>hop_writes op. r < length (objs h1)"
      using Cons.prems by (meson list.set_intros(2) less_le_trans)
    then have "\<exists>z. run_ops subn h1 s ops = Some z" by (rule Cons.IH)
    then show ?thesis using y Inr by simp
  qed
qed

end
