(* ===== verification/HeapIter.thy ===== *)
theory HeapIter
  imports Heap
begin

text \<open>
  \<open>__iter__\<close> of \<^verbatim>\<open>src/netlib/odict.py\<close> returns \<open>self.lst.__iter__()\<close>: an
  iterator over the map's own list object, not over a copy. CPython's list (and tuple)
  iterator holds the sequence and an index; each \<open>next\<close> compares the index with the
  length the sequence has at that moment, and once exhausted it drops the sequence and
  stays exhausted. A \<open>for\<close> loop over a map therefore sees the entries that its body
  appends to the map.
\<close>

record liter =
  it_seq :: "ref option"
  it_index :: nat

text \<open>\<open>__iter__\<close>: an iterator over \<open>self.lst\<close>. A \<open>self.lst\<close> that is not a
  sequence (another instance) is outside the model and gives \<open>TypeError\<close>.\<close>

definition h_iter :: "heap \<Rightarrow> ref \<Rightarrow> pyerr + liter" where
  "h_iter h self =
     (case h_lst h self of
        Inl e \<Rightarrow> Inl e
      | Inr (c, l) \<Rightarrow>
          (case h_seq h l of
             Some xs \<Rightarrow> Inr \<lparr>it_seq = Some l, it_index = 0\<rparr>
           | None \<Rightarrow> Inl TypeError))"

text \<open>\<open>listiter_next\<close>: the next element and the advanced iterator, or \<open>None\<close>
  (\<open>StopIteration\<close>) and the exhausted iterator.\<close>

definition list_next :: "heap \<Rightarrow> liter \<Rightarrow> pyval option \<times> liter" where
  "list_next h it =
     (case it_seq it of
        None \<Rightarrow> (None, it)
      | Some l \<Rightarrow>
          (case h_seq h l of
             Some xs \<Rightarrow>
               if it_index it < length xs then (Some (xs ! it_index it), it\<lparr>it_index := Suc (it_index it)\<rparr>)
               else (None, it\<lparr>it_seq := None\<rparr>)
           | None \<Rightarrow> (None, it\<lparr>it_seq := None\<rparr>)))"

text \<open>\<open>list(m)\<close>, or a \<open>for\<close> loop whose body does not change the store: the elements
  until \<open>StopIteration\<close>, on fuel.\<close>

fun iter_collect :: "nat \<Rightarrow> heap \<Rightarrow> liter \<Rightarrow> pyval list option" where
  "iter_collect 0 h it = None"
| "iter_collect (Suc n) h it =
     (case list_next h it of
        (None, it') \<Rightarrow> Some []
      | (Some x, it') \<Rightarrow> map_option (Cons x) (iter_collect n h it'))"

text \<open>\<open>for i in m: m.add(k, v)\<close>, on fuel: \<open>None\<close> when the fuel runs out before the
  loop ends.\<close>

fun iter_add_loop :: "nat \<Rightarrow> heap \<Rightarrow> ref \<Rightarrow> liter \<Rightarrow> pystr \<Rightarrow> pystr \<Rightarrow> (pyerr + heap) option" where
  "iter_add_loop 0 h s it k v = None"
| "iter_add_loop (Suc n) h s it k v =
     (case list_next h it of
        (None, it') \<Rightarrow> Some (Inr h)
      | (Some x, it') \<Rightarrow>
          (case h_add h s k v of
             Inl e \<Rightarrow> Some (Inl e)
           | Inr h' \<Rightarrow> iter_add_loop n h' s it' k v))"

section \<open>Iterating an unchanged map\<close>

lemma iter_collect_drop:
  assumes "h_seq h l = Some xs" and "length xs - i < n"
  shows "iter_collect n h \<lparr>it_seq = Some l, it_index = i\<rparr> = Some (drop i xs)"
  using assms(2)
proof (induction n arbitrary: i)
  case 0
  then show ?case by simp
next
  case (Suc n)
  show ?case
  proof (cases "i < length xs")
    case True
    then have "iter_collect n h \<lparr>it_seq = Some l, it_index = Suc i\<rparr> = Some (drop (Suc i) xs)"
      using Suc by (intro Suc.IH) simp
    then show ?thesis using True assms(1) by (simp add: list_next_def Cons_nth_drop_Suc)
  next
    case False
    then show ?thesis using assms(1) by (simp add: list_next_def)
  qed
qed

section \<open>A loop that appends to the map it iterates\<close>

lemma iter_add_loop_runs:
  assumes "deref h s = Some (OInst c l)" and "deref h l = Some (OSeq KList xs)" and "i < length xs"
  shows "iter_add_loop n h s \<lparr>it_seq = Some l, it_index = i\<rparr> k v = None"
  using assms
proof (induction n arbitrary: h xs i)
  case 0
  then show ?case by simp
next
  case (Suc n)
  define h' where "h' = store_obj (snd (alloc h (OSeq KList [VStr k, VStr v]))) l (OSeq KList (xs @ [VRef (length (objs h))]))"
  have add: "h_add h s k v = Inr h'" unfolding h'_def by (rule h_add_eq [OF Suc.prems(1,2)])
  have sl: "s \<noteq> l" using Suc.prems(1,2) by auto
  have ls: "s < length (objs h)" "l < length (objs h)" using Suc.prems(1,2) by (auto simp: deref_def split: if_splits)
  have d1: "deref h' s = Some (OInst c l)" using Suc.prems(1) sl ls
    by (simp add: h'_def deref_def store_obj_def alloc_def nth_append)
  have d2: "deref h' l = Some (OSeq KList (xs @ [VRef (length (objs h))]))" using ls
    by (simp add: h'_def deref_def store_obj_def alloc_def)
  have "iter_add_loop n h' s \<lparr>it_seq = Some l, it_index = Suc i\<rparr> k v = None"
    using Suc.prems(3) by (intro Suc.IH [OF d1 d2]) simp
  then show ?case using Suc.prems(2,3) add by (simp add: list_next_def h_seq_def)
qed

section \<open>Properties\<close>

text \<open>
  C17: Iterating over a map that nothing changes meanwhile (\<open>list(m)\<close>) yields the
  map's own entry objects, in order, and then stops: they read back as the entry list
  of the value model.
\<close>

theorem iter_yields_entries:
  assumes "view h s = Some m"
  shows "\<exists>it vs. h_iter h s = Inr it \<and> iter_collect (Suc (length (lst m))) h it = Some vs \<and>
    those (map (read_entry h) vs) = Some (lst m)"
proof -
  obtain l es where s: "deref h s = Some (OInst (cls m) l)" and l: "deref h l = Some (OSeq KList es)"
    and r: "those (map (read_entry h) es) = Some (lst m)"
    using assms by (rule view_SomeE)
  have sq: "h_seq h l = Some es" using l by (simp add: h_seq_def)
  have "length es - 0 < Suc (length (lst m))" using those_map_length [OF r] by simp
  then have "iter_collect (Suc (length (lst m))) h \<lparr>it_seq = Some l, it_index = 0\<rparr> = Some es"
    using iter_collect_drop [OF sq, of 0] by (simp del: iter_collect.simps)
  moreover have "h_iter h s = Inr \<lparr>it_seq = Some l, it_index = 0\<rparr>" using s sq by (simp add: h_iter_def h_lst_def)
  ultimately show ?thesis using r by blast
qed

text \<open>
  C18: \<open>for i in m: m.add(k, v)\<close> never ends on a non-empty map: each round appends
  an entry to the list the iterator walks, so for every fuel the loop is still running.
\<close>

theorem iter_add_never_ends:
  assumes "view h s = Some m" and "lst m \<noteq> []" and "h_iter h s = Inr it"
  shows "iter_add_loop n h s it k v = None"
proof -
  obtain l es where s: "deref h s = Some (OInst (cls m) l)" and l: "deref h l = Some (OSeq KList es)"
    and r: "those (map (read_entry h) es) = Some (lst m)"
    using assms(1) by (rule view_SomeE)
  have "it = \<lparr>it_seq = Some l, it_index = 0\<rparr>" using assms(3) s l by (simp add: h_iter_def h_lst_def h_seq_def)
  moreover have "0 < length es" using those_map_length [OF r] assms(2) by (cases es) auto
  ultimately show ?thesis using iter_add_loop_runs [OF s l] by simp
qed

end
