(* ===== verification/Repr.thy ===== *)
theory Repr
  imports ODict
begin

text \<open>
  \<open>__repr__\<close> of \<^verbatim>\<open>src/netlib/odict.py\<close> returns \<open>repr(self.lst)\<close>: CPython's
  \<open>list_repr\<close> of the entry list, \<open>list_repr\<close> or \<open>tuplerepr\<close> of each entry, and
  \<open>unicode_repr\<close> of each key and value. The string repr is CPython's on code points
  U+0000..U+00FF: the quote is \<open>"\<close> when the text holds a \<open>'\<close> and no \<open>"\<close>, and
  \<open>'\<close> otherwise; the quote and the backslash are escaped, tab, newline and return
  print as \<open>\t\<close>, \<open>\n\<close>, \<open>\r\<close>, the other non-printable characters as \<open>\xhh\<close>.
  A reader of that text (\<open>lex\<close>, \<open>parse_entries\<close>, \<open>parse_repr\<close>; not in the
  module) gives the round trip: the text of \<open>repr\<close> determines the entry list.
\<close>

section \<open>\<open>repr\<close> of strings, entries and the entry list\<close>

definition hex_digits :: string where
  "hex_digits = ''0123456789abcdef''"

text \<open>\<open>Py_UNICODE_ISPRINTABLE\<close> on U+0000..U+00FF: the controls U+0000..U+001F and
  U+007F..U+009F, the no-break space U+00A0 and the soft hyphen U+00AD are not printable.\<close>

definition latin1_printable :: "char \<Rightarrow> bool" where
  "latin1_printable c \<longleftrightarrow>
     (let n = of_char c :: nat in 32 \<le> n \<and> n \<noteq> 127 \<and> (n < 128 \<or> 160 < n) \<and> n \<noteq> 173)"

text \<open>One character of \<open>unicode_repr\<close>'s output loop, for the quote \<open>q\<close>.\<close>

definition repr_char :: "char \<Rightarrow> char \<Rightarrow> string" where
  "repr_char q c =
     (if c = q \<or> c = CHR 0x5C then [CHR 0x5C, c]
      else if c = CHR 0x09 then [CHR 0x5C, CHR ''t'']
      else if c = CHR 0x0A then [CHR 0x5C, CHR ''n'']
      else if c = CHR 0x0D then [CHR 0x5C, CHR ''r'']
      else if latin1_printable c then [c]
      else [CHR 0x5C, CHR ''x'', hex_digits ! (of_char c div 16), hex_digits ! (of_char c mod 16)])"

definition repr_quote :: "pystr \<Rightarrow> char" where
  "repr_quote s = (if CHR 0x27 \<in> set s \<and> CHR 0x22 \<notin> set s then CHR 0x22 else CHR 0x27)"

definition py_str_repr :: "pystr \<Rightarrow> string" where
  "py_str_repr s = (let q = repr_quote s in q # concat (map (repr_char q) s) @ [q])"

fun comma_join :: "string list \<Rightarrow> string" where
  "comma_join [] = []"
| "comma_join [x] = x"
| "comma_join (x # xs) = x @ '', '' @ comma_join xs"

fun entry_repr :: "entry \<Rightarrow> string" where
  "entry_repr (LItem k v) = ''['' @ comma_join [py_str_repr k, py_str_repr v] @ '']''"
| "entry_repr (TItem k v) = ''('' @ comma_join [py_str_repr k, py_str_repr v] @ '')''"

definition odict_repr :: "odict \<Rightarrow> string" where
  "odict_repr m = ''['' @ comma_join (map entry_repr (lst m)) @ '']''"

section \<open>A reader of the text\<close>

datatype tok = TLb | TRb | TLp | TRp | TComma | TStr pystr

datatype lexst = Out | InStr char | Esc char | Hex1 char | Hex2 char char

definition hex_val :: "char \<Rightarrow> nat option" where
  "hex_val c =
     (let n = of_char c :: nat in
      if 48 \<le> n \<and> n \<le> 57 then Some (n - 48) else if 97 \<le> n \<and> n \<le> 102 then Some (n - 87) else None)"

fun unescape :: "char \<Rightarrow> char option" where
  "unescape c =
     (if c = CHR ''t'' then Some (CHR 0x09) else if c = CHR ''n'' then Some (CHR 0x0A)
      else if c = CHR ''r'' then Some (CHR 0x0D)
      else if c = CHR 0x5C \<or> c = CHR 0x27 \<or> c = CHR 0x22 then Some c else None)"

fun lex :: "lexst \<Rightarrow> string \<Rightarrow> string \<Rightarrow> tok list option" where
  "lex Out acc [] = Some []"
| "lex Out acc (c # cs) =
     (if c = CHR ''['' then map_option (Cons TLb) (lex Out [] cs)
      else if c = CHR '']'' then map_option (Cons TRb) (lex Out [] cs)
      else if c = CHR ''('' then map_option (Cons TLp) (lex Out [] cs)
      else if c = CHR '')'' then map_option (Cons TRp) (lex Out [] cs)
      else if c = CHR '','' then map_option (Cons TComma) (lex Out [] cs)
      else if c = CHR '' '' then lex Out [] cs
      else if c = CHR 0x27 \<or> c = CHR 0x22 then lex (InStr c) [] cs
      else None)"
| "lex (InStr q) acc [] = None"
| "lex (InStr q) acc (c # cs) =
     (if c = q then map_option (Cons (TStr (rev acc))) (lex Out [] cs)
      else if c = CHR 0x5C then lex (Esc q) acc cs
      else lex (InStr q) (c # acc) cs)"
| "lex (Esc q) acc [] = None"
| "lex (Esc q) acc (c # cs) =
     (if c = CHR ''x'' then lex (Hex1 q) acc cs
      else case unescape c of Some d \<Rightarrow> lex (InStr q) (d # acc) cs | None \<Rightarrow> None)"
| "lex (Hex1 q) acc [] = None"
| "lex (Hex1 q) acc (c # cs) = lex (Hex2 q c) acc cs"
| "lex (Hex2 q h) acc [] = None"
| "lex (Hex2 q h) acc (c # cs) =
     (case (hex_val h, hex_val c) of
        (Some a, Some b) \<Rightarrow> lex (InStr q) (char_of (16 * a + b) # acc) cs
      | _ \<Rightarrow> None)"

text \<open>The entry list from the tokens: a state per position inside an entry (\<open>True\<close>
  for a list entry, \<open>False\<close> for a tuple) and \<open>PSep\<close> between entries.\<close>

datatype pst = PEntry | PKey bool | PComma bool pystr | PVal bool pystr | PClose bool pystr pystr | PSep

fun parse_entries :: "pst \<Rightarrow> tok list \<Rightarrow> entry list option" where
  "parse_entries s [] = None"
| "parse_entries s (t # ts) =
     (case (s, t) of
        (PEntry, TLb) \<Rightarrow> parse_entries (PKey True) ts
      | (PEntry, TLp) \<Rightarrow> parse_entries (PKey False) ts
      | (PKey b, TStr k) \<Rightarrow> parse_entries (PComma b k) ts
      | (PComma b k, TComma) \<Rightarrow> parse_entries (PVal b k) ts
      | (PVal b k, TStr v) \<Rightarrow> parse_entries (PClose b k v) ts
      | (PClose True k v, TRb) \<Rightarrow> map_option (Cons (LItem k v)) (parse_entries PSep ts)
      | (PClose False k v, TRp) \<Rightarrow> map_option (Cons (TItem k v)) (parse_entries PSep ts)
      | (PSep, TRb) \<Rightarrow> if ts = [] then Some [] else None
      | (PSep, TComma) \<Rightarrow> parse_entries PEntry ts
      | _ \<Rightarrow> None)"

definition parse_toks :: "tok list \<Rightarrow> entry list option" where
  "parse_toks ts = (if ts = [TLb, TRb] then Some [] else
     case ts of TLb # r \<Rightarrow> parse_entries PEntry r | _ \<Rightarrow> None)"

definition parse_repr :: "string \<Rightarrow> entry list option" where
  "parse_repr s = (case lex Out [] s of Some ts \<Rightarrow> parse_toks ts | None \<Rightarrow> None)"

text \<open>The tokens the reader makes of one entry and of the entries joined by \<open>", "\<close>.\<close>

fun etoks :: "entry \<Rightarrow> tok list" where
  "etoks (LItem k v) = [TLb, TStr k, TComma, TStr v, TRb]"
| "etoks (TItem k v) = [TLp, TStr k, TComma, TStr v, TRp]"

fun jtoks :: "entry list \<Rightarrow> tok list" where
  "jtoks [] = []"
| "jtoks [e] = etoks e"
| "jtoks (e # es) = etoks e @ TComma # jtoks es"

definition is_quote :: "char \<Rightarrow> bool" where
  "is_quote q \<longleftrightarrow> q = CHR 0x27 \<or> q = CHR 0x22"

section \<open>The round trip\<close>


lemma hex_val_digits: "\<forall>i\<in>set [0..<16]. hex_val (hex_digits ! i) = Some i"
  by code_simp

lemma hex_val_digit: "i < 16 \<Longrightarrow> hex_val (hex_digits ! i) = Some i"
  using hex_val_digits by simp

lemma lex_repr_char:
  assumes q: "is_quote q"
  shows "lex (InStr q) acc (repr_char q c @ rest) = lex (InStr q) (c # acc) rest"
proof -
  have bs: "CHR 0x5C \<noteq> q" using q by (auto simp: is_quote_def)
  have d: "of_char c div 16 < (16::nat)"
    using less_mult_imp_div_less [of "of_char c" 16 16] nat_of_char_less_256 [of c] by simp
  show ?thesis
  proof (cases "c = q \<or> c = CHR 0x5C")
    case True
    then show ?thesis using q bs by (auto simp: repr_char_def is_quote_def)
  next
    case False
    then show ?thesis using bs
      by (auto simp: repr_char_def latin1_printable_def hex_val_digit d Let_def)
  qed
qed

lemma lex_repr_body:
  "is_quote q \<Longrightarrow>
   lex (InStr q) acc (concat (map (repr_char q) s) @ q # rest) = map_option (Cons (TStr (rev acc @ s))) (lex Out [] rest)"
  by (induction s arbitrary: acc) (simp_all add: lex_repr_char [simplified])

lemma repr_quote_is_quote: "is_quote (repr_quote s)"
  by (simp add: repr_quote_def is_quote_def)

lemma lex_str_repr: "lex Out [] (py_str_repr s @ rest) = map_option (Cons (TStr s)) (lex Out [] rest)"
proof -
  have q: "is_quote (repr_quote s)" by (rule repr_quote_is_quote)
  then have "lex Out [] (py_str_repr s @ rest) =
      lex (InStr (repr_quote s)) [] (concat (map (repr_char (repr_quote s)) s) @ repr_quote s # rest)"
    by (auto simp: py_str_repr_def Let_def is_quote_def)
  then show ?thesis using lex_repr_body [OF q, of "[]" s rest] by simp
qed

lemma lex_entry_repr: "lex Out [] (entry_repr e @ rest) = map_option (\<lambda>ts. etoks e @ ts) (lex Out [] rest)"
  by (cases e) (simp_all add: lex_str_repr option.map_comp comp_def)

lemma lex_join:
  "lex Out [] (comma_join (map entry_repr es) @ rest) = map_option (\<lambda>ts. jtoks es @ ts) (lex Out [] rest)"
proof (induction es rule: jtoks.induct)
  case 1
  have "(\<lambda>ts. ts) = (id :: tok list \<Rightarrow> tok list)" by (simp add: id_def)
  then show ?case by (simp add: option.map_id)
next
  case (2 e)
  then show ?case by (simp add: lex_entry_repr)
next
  case (3 e1 e2 es)
  then show ?case by (simp add: lex_entry_repr option.map_comp comp_def)
qed

lemma lex_odict_repr: "lex Out [] (odict_repr m) = Some (TLb # jtoks (lst m) @ [TRb])"
  using lex_join [of "lst m" "'']''"] by (simp add: odict_repr_def)

lemma parse_jtoks: "es \<noteq> [] \<Longrightarrow> parse_entries PEntry (jtoks es @ [TRb]) = Some es"
proof (induction es rule: jtoks.induct)
  case (2 e)
  then show ?case by (cases e) simp_all
next
  case (3 e1 e2 es)
  then show ?case by (cases e1) simp_all
qed simp

text \<open>
  C31: \<open>repr(m)\<close> shows the raw ordered entry sequence: reading the text back gives
  exactly \<open>m.lst\<close>, list entries as lists and tuple entries as tuples, whatever
  quotes, backslashes and non-printable characters the keys and values hold.
\<close>

theorem repr_roundtrip: "parse_repr (odict_repr m) = Some (lst m)"
proof (cases "lst m = []")
  case True
  then show ?thesis by (simp add: parse_repr_def lex_odict_repr parse_toks_def)
next
  case False
  then have "jtoks (lst m) \<noteq> []" by (cases "lst m" rule: jtoks.cases) (auto elim: etoks.elims)
  then show ?thesis using False by (simp add: parse_repr_def lex_odict_repr parse_toks_def parse_jtoks)
qed


lemma etoks_not_Nil: "etoks e \<noteq> []"
  by (cases e) simp_all

lemma jtoks_Nil_iff: "jtoks es = [] \<longleftrightarrow> es = []"
  by (cases es rule: jtoks.cases) (simp_all add: etoks_not_Nil)

lemma jtoks_inj: "jtoks es1 = jtoks es2 \<Longrightarrow> es1 = es2"
proof -
  assume j: "jtoks es1 = jtoks es2"
  show "es1 = es2"
  proof (cases "es1 = []")
    case True
    then show ?thesis using j jtoks_Nil_iff [of es2] by simp
  next
    case False
    then have n2: "es2 \<noteq> []" using j jtoks_Nil_iff [of es1] jtoks_Nil_iff [of es2] by simp
    have "parse_entries PEntry (jtoks es1 @ [TRb]) = parse_entries PEntry (jtoks es2 @ [TRb])"
      using j by simp
    then show ?thesis using parse_jtoks [OF False] parse_jtoks [OF n2] by simp
  qed
qed

text \<open>
  C32: The debug representation and structural equality agree: two maps have the
  same \<open>repr\<close> exactly when they are equal under \<open>__eq__\<close> (same entries, same
  order, list and tuple entries told apart).
\<close>

theorem repr_eq_iff: "odict_repr m1 = odict_repr m2 \<longleftrightarrow> odict_eq m1 m2"
proof
  assume e: "odict_repr m1 = odict_repr m2"
  have "Some (TLb # jtoks (lst m1) @ [TRb]) = Some (TLb # jtoks (lst m2) @ [TRb])"
    using lex_odict_repr [of m1] lex_odict_repr [of m2] e by metis
  then have "jtoks (lst m1) = jtoks (lst m2)" by simp
  then show "odict_eq m1 m2" unfolding odict_eq_def by (rule jtoks_inj)
next
  assume "odict_eq m1 m2"
  then show "odict_repr m1 = odict_repr m2" unfolding odict_eq_def odict_repr_def by simp
qed

end
