(* ===== verification/Spec2Isabelle.thy ===== *)
theory Spec2Isabelle
  imports ODictAbs Wire Regex HeapTotal HeapIter Repr
begin

text \<open>
  \<^bold>\<open>A verification development of \<^verbatim>\<open>src/netlib/odict.py\<close>.\<close>

  \<^bold>\<open>The program.\<close> One module: the class \<open>ODict\<close>, an ordered list of
  \<open>[key, value]\<close> entries with repeatable keys, and its subclass \<open>ODictCaseless\<close>,
  which overrides only the key conversion \<open>_kconv\<close> (identity, resp. \<open>str.lower\<close>).
  Every method goes through the list \<open>self.lst\<close>: lookups (\<open>__getitem__\<close>,
  \<open>__contains__\<close>, \<open>get\<close>, \<open>get_first\<close>, \<open>keys\<close>, \<open>in_any\<close>), mutators
  (\<open>__setitem__\<close>, \<open>__delitem__\<close>, \<open>add\<close>, \<open>extend\<close>, \<open>replace\<close>,
  \<open>load_state\<close>), the wire form \<open>format\<close>, and the snapshot protocol
  (\<open>get_state\<close>, \<open>load_state\<close>, \<open>from_state\<close>), and the hooks \<open>__eq__\<close>,
  \<open>__ne__\<close>, \<open>__len__\<close>, \<open>__iter__\<close> and \<open>__repr__\<close>. The module calls Python's
  \<open>re\<close> (\<open>re.search\<close> in \<open>match_re\<close>, \<open>re.subn\<close> through \<open>safe_subn\<close> in
  \<open>replace\<close>), \<open>copy.deepcopy\<close> in \<open>copy\<close>, and the string builtins \<open>lower\<close>,
  \<open>in\<close>, \<open>encode\<close>, \<open>join\<close>.

  \<^bold>\<open>The theories.\<close>
  \<^item> \<^theory_text>\<open>Prelude\<close>: the names of Python's types (\<open>pystr\<close>, \<open>byte\<close>,
    \<open>pybytes\<close>), the exceptions \<open>pyerr\<close> (\<open>ValueError\<close>, \<open>AttributeError\<close>,
    \<open>IndexError\<close>, \<open>TypeError\<close>, \<open>ReError\<close> for \<open>re.error\<close>), the rule
    collection \<open>odict_simps\<close> (the rules that reduce lookups, \<open>add\<close>, \<open>del\<close> and
    \<open>extend\<close> to list operations), shared lemmas on bytes and lists.
  \<^item> \<^theory_text>\<open>PyStr\<close>: the string builtins on code points U+0000..U+00FF, where
    the definitions agree with CPython: \<open>lower_char\<close>/\<open>py_lower\<close> (\<open>str.lower\<close>),
    \<open>str_in\<close> (\<open>needle in hay\<close>, proved equal to \<open>sublist\<close>), \<open>utf8_encode\<close>
    (\<open>str.encode('utf-8')\<close>, on 8-bit words) with its decoder, \<open>py_join\<close>
    (\<open>bytes.join\<close>).
  \<^item> \<^theory_text>\<open>ODict\<close>: the classes as values. An object is the record \<open>odict\<close>
    (its class \<open>cls\<close> and its list \<open>lst\<close>); an entry is \<open>LItem k v\<close> (the list
    \<open>[k, v]\<close> the methods build) or \<open>TItem k v\<close> (a tuple a caller may pass to the
    constructor; Python's \<open>==\<close> tells them apart). Each method is one definition of
    the same name (\<open>getitem\<close>, \<open>setitem\<close>, \<open>delitem\<close>, \<open>contains\<close>,
    \<open>add\<close>, \<open>get\<close>, \<open>get_first\<close>, \<open>items\<close>, \<open>copy\<close>, \<open>extend\<close>,
    \<open>format\<close>, \<open>in_any\<close>, \<open>match_re\<close>, \<open>replace\<close>, \<open>get_state\<close>,
    \<open>load_state\<close>, \<open>from_state\<close>, \<open>odict_eq\<close>/\<open>odict_ne\<close> for
    \<open>__eq__\<close>/\<open>__ne__\<close>, \<open>odict_len\<close> for \<open>__len__\<close>), taking the object and
    returning the new object or the result; each \<open>for\<close> loop is a \<open>_loop\<close> or
    \<open>_walk\<close> function with the loop's accumulator as argument; the \<open>while
    valuelist\<close> loop of \<open>__setitem__\<close> is \<open>setitem_tail\<close>, a \<open>function\<close>
    terminating by the length of the value list; the argument \<open>valuelist\<close> is a
    \<open>pyarg\<close> (a \<open>str\<close>, \<open>list\<close> or \<open>tuple\<close>) with Python's truth test and
    \<open>pop(0)\<close>. Raised exceptions are \<open>Inl\<close> values. The regular-expression
    engine is a parameter (\<open>re_search\<close>, \<open>re_subn\<close>).
  \<^item> \<^theory_text>\<open>ODictAbs\<close>: the abstract contract. \<open>alpha\<close> maps a map to the
    function from converted keys to their value lists; \<open>step\<close> is the relation of
    one mutator call, \<open>reachable\<close> the maps made by \<open>init\<close> or \<open>from_state\<close>
    and steps; \<open>adds\<close> a sequence of \<open>add\<close> calls.
  \<^item> \<^theory_text>\<open>Heap\<close>: the classes over an explicit store of Python objects
    (\<open>heap\<close>, a list of \<open>pyobj\<close>: lists, tuples and instances, addressed by
    \<open>ref\<close>), for what depends on object identity. Each mutating method is a definition
    \<open>h_\<close> plus its name (\<open>h_init\<close>, \<open>h_add\<close>, \<open>h_setitem\<close> with its loops
    \<open>h_setitem_walk\<close>/\<open>h_setitem_tail\<close>, \<open>h_delitem\<close> with \<open>h_filter_loop\<close>,
    \<open>h_extend\<close>, \<open>h_items\<close>, \<open>h_copy\<close> with the deep copy
    \<open>h_copy_entries\<close>, \<open>h_replace\<close>, \<open>h_load_state\<close>, \<open>h_from_state\<close>),
    taking the store and the receiver's reference; \<open>view\<close> reads an instance back as a
    value of \<^theory_text>\<open>ODict\<close>, \<open>fp\<close> is its footprint (itself, its list, its
    entries). \<open>run_ops\<close> runs a caller's sequence of calls (\<open>hop\<close>) on one map.
  \<^item> \<^theory_text>\<open>HeapSim\<close>: each store method simulated by the value method through
    \<open>view\<close>; \<^theory_text>\<open>HeapFrame\<close>: the objects each call may change
    (\<open>call_frame\<close>) and the frame of a sequence of calls (\<open>run_ops_view\<close>).
  \<^item> \<^theory_text>\<open>HeapTotal\<close>: termination of the fuelled loops of the store's
    \<open>__setitem__\<close> on every store and liveness of sequences of calls.
  \<^item> \<^theory_text>\<open>HeapIter\<close>: \<open>__iter__\<close> on the store (\<open>h_iter\<close>), CPython's list
    iterator (\<open>list_next\<close>), and two caller loops on fuel: \<open>list(m)\<close>
    (\<open>iter_collect\<close>) and a loop that adds to the map it walks (\<open>iter_add_loop\<close>).
  \<^item> \<^theory_text>\<open>Repr\<close>: \<open>__repr__\<close> (\<open>odict_repr\<close>) with CPython's \<open>str\<close>,
    list and tuple \<open>repr\<close> (\<open>py_str_repr\<close>, \<open>repr_char\<close>, \<open>repr_quote\<close>,
    \<open>entry_repr\<close>), and a reader of the text (\<open>lex\<close>, \<open>parse_repr\<close>).
  \<^item> \<^theory_text>\<open>Wire\<close>: the reader of the wire format (the inverse of \<open>format\<close>,
    not in the module) and the round trip.
  \<^item> \<^theory_text>\<open>Regex\<close>: an engine for the interface, exact for patterns without
    metacharacters and replacements without backslashes (\<open>lit_search\<close>,
    \<open>lit_subn\<close>).
  \<^item> This theory: the properties of the store model (C7 to C14), over the example
    stores \<open>ex_heap\<close> and others, and the witnesses of C15 to C18.

  \<^bold>\<open>What is proved.\<close>
  \<^item> \<open>__setitem__\<close> (ODict): equal to the loop-free reference
    \<open>set_values_ref\<close> (C1); reads back the values set (C2); keeps every other
    entry in place (C3); rejects a \<open>str\<close> with \<open>ValueError\<close> (C4); raises
    \<open>AttributeError\<close> on a non-empty tuple (C5); the entry count (C6).
  \<^item> object identity (this theory): the store's \<open>__setitem__\<close> refines the value
    model and changes only the map and the value list (C7), and empties the caller's value
    list (C8); \<open>copy\<close> is independent of the original under any sequence of mutating
    calls on either (C9); \<open>ODict(lst)\<close> keeps the caller's non-empty list, which
    \<open>add\<close> then changes (C10); \<open>items()\<close> hands out the map's own entries
    (C11) and \<open>extend\<close> shares the other map's entries (C12); \<open>from_state\<close> builds
    a map of new objects only (C13); \<open>add\<close>, \<open>del\<close>, \<open>load_state\<close> refine
    the value model (C14).
  \<^item> termination and liveness (HeapTotal): the walk of the store's \<open>__setitem__\<close>
    returns on its fuel and more fuel changes nothing, also for \<open>m[k] = m.lst\<close> (C15);
    every sequence of calls returns when its value lists are objects of the store (C16).
  \<^item> iteration (HeapIter): iterating an unchanged map yields its own entries in order
    (C17); \<open>for i in m: m.add(k, v)\<close> never ends on a non-empty map (C18).
  \<^item> lookups: \<open>__getitem__\<close> is a filter (C19), \<open>__contains__\<close> its
    non-emptiness (C20), \<open>del\<close> acts on one key only (C21), \<open>get_first\<close> never
    raises (C22), \<open>in_any\<close> is a substring test (C39).
  \<^item> refinement (ODictAbs): \<open>add\<close> keeps call order (C23); \<open>m[k] = vs\<close>,
    \<open>add\<close> and \<open>extend\<close> refine updates of the abstract multimap (C24 to C26);
    every reachable map holds list entries only (C27, an invariant by rule induction over
    \<open>reachable\<close> and \<open>step\<close>) and is restored exactly from its snapshot (C28).
  \<^item> snapshots (ODict): restoring gives the same map exactly when all entries are lists
    (C29).
  \<^item> text forms: \<open>format\<close> is the CRLF-terminated lines (C30); \<open>repr\<close> determines
    the entry list, read back by \<open>parse_repr\<close> (C31, Repr), and two maps have the same
    \<open>repr\<close> exactly when they are equal (C32, Repr); the round trip of \<open>format\<close>
    through the reader for keys without colon and text without CR or LF (C33, Wire); in
    any map a value holding CRLF and a header line formats like two entries, so the wire
    form does not determine the map (C34, Wire).
  \<^item> regular expressions: \<open>replace\<close> with a total engine rewrites every key and
    value and sums the counts (C35), propagates a pattern error (C36) except on an empty
    map (C37); \<open>match_re\<close> is a search over \<open>"key: value"\<close> (C38).
  \<^item> also checked, by evaluation or as lemmas: the spec's examples of
    \<open>__setitem__\<close>, \<open>format\<close> and \<open>replace\<close>
    (\<open>setitem_example_overwrite\<close>, \<open>setitem_example_truncate\<close>,
    \<open>format_example\<close>, \<open>Regex.replace_example\<close>), the caseless variant
    (\<open>caseless_example\<close>), the refinement of \<open>del\<close> (\<open>alpha_delitem\<close>), a
    map of tuple entries that its snapshot does not restore (\<open>tuple_map_snapshot_differs\<close>),
    and the UTF-8 round trip of \<open>str_to_bytes\<close> (\<open>str_to_bytes_roundtrip\<close>).

  \<^bold>\<open>Bounds, fuel and termination.\<close> Every loop of the value model runs over a
  finite list; the \<open>while valuelist\<close> loop terminates because each \<open>pop\<close>
  shortens the list (measure \<open>arg_len\<close>); \<open>lit_sub\<close> by the length of the subject
  string. On the store the two loops of \<open>__setitem__\<close> run on fuel, because the
  value list may be the map's own list and the walk reads the live list:
  \<open>h_setitem_walk\<close> gets one round more than the length of \<open>self.lst\<close> and
  \<open>h_setitem_tail\<close> one more than the length of the value list. Each round of
  the walk either advances the index or pops the list it walks, so the entries left
  to visit fall by one per round and this fuel is enough on every store, also when the
  value list is \<open>self.lst\<close> (C15, \<open>h_setitem_walk_total\<close>,
  \<open>h_setitem_tail_total\<close>, \<open>h_setitem_returns\<close>); with more fuel the result is
  the same (\<open>h_setitem_walk_mono\<close>). The caller loops over \<open>__iter__\<close> run on
  fuel too: \<open>list(m)\<close> ends within one round more than the length of the list (C17),
  while the loop that adds to the map is shown to be still running for every fuel
  (C18). Byte values are 8-bit words; the UTF-8 encoder's bytes are shown to
  lie below 256 (\<open>unat_byte_of_nat\<close>).

  \<^bold>\<open>Not modelled.\<close> Keys and values of type \<open>bytes\<close> (the other branch of
  \<open>str_to_bytes\<close>) and code points above U+00FF; the general regular-expression
  language of \<open>re\<close> (only the literal fragment has an engine); \<open>copy.deepcopy\<close>
  of entries holding anything but strings; the read-only methods on the store (they
  are read through \<open>view\<close>); \<open>repr\<close> and iteration of a map whose
  \<open>lst\<close> is another instance (\<open>ODict(other)\<close>), which Python would delegate to the
  other map (\<open>h_iter\<close> gives \<open>TypeError\<close> there).

  \<^bold>\<open>Plan for later sittings.\<close> (1) A backtracking engine for a fragment of
  \<open>re\<close> (literals, \<open>.\<close>, classes, \<open>*\<close>, \<open>+\<close>, \<open>?\<close>, alternation,
  groups) with Python's leftmost-first semantics and \<open>re.error\<close> on malformed
  patterns, replacing the literal engine, and the \<open>subn\<close> rules for empty matches.
  (2) \<open>bytes\<close>
  keys and values, and the whole Unicode range for \<open>lower\<close>.
\<close>

definition ex_heap :: heap where
  "ex_heap = \<lparr>objs = [OInst ODict 1, OSeq KList [VRef 2], OSeq KList [VStr ''a'', VStr ''1''],
     OSeq KList [VStr ''x'']]\<rparr>"

definition ex_heap2 :: heap where
  "ex_heap2 = \<lparr>objs = [OInst ODict 1, OSeq KList [VRef 2], OSeq KList [VStr ''a'', VStr ''1''],
     OInst ODict 4, OSeq KList []]\<rparr>"

definition ex_heap2x :: heap where
  "ex_heap2x = \<lparr>objs = [OInst ODict 1, OSeq KList [VRef 2], OSeq KList [VStr ''a'', VStr ''1''],
     OInst ODict 4, OSeq KList [VRef 2]]\<rparr>"

definition ex_copy :: heap where
  "ex_copy = \<lparr>objs = [OInst ODict 1, OSeq KList [VRef 2], OSeq KList [VStr ''a'', VStr ''1''],
     OSeq KList [VStr ''x''], OSeq KList [VStr ''a'', VStr ''1''], OSeq KList [VRef 4], OInst ODict 5]\<rparr>"

definition ex_map :: odict where
  "ex_map = \<lparr>cls = ODict, lst = [LItem ''a'' ''1'']\<rparr>"

section \<open>Examples of stores\<close>

lemmas ex_eval = ex_heap_def ex_map_def deref_def view_def h_lst_def fp_def

lemma ex_view: "view ex_heap 0 = Some ex_map"
  by (simp add: ex_eval)

lemma ex_copy_run: "h_copy ex_heap 0 = Inr (6, ex_copy)"
  by (simp add: ex_heap_def ex_copy_def h_copy_def h_lst_def deref_def h_copy_entry_def all_str_def alloc_def
      h_init_def h_truthy_def)

lemma ex_iter: "h_iter ex_heap 0 = Inr \<lparr>it_seq = Some 1, it_index = 0\<rparr>"
  by (simp add: ex_heap_def h_iter_def h_lst_def h_seq_def deref_def)

section \<open>Properties of the store model\<close>

text \<open>
  C7: On the store, \<open>m[k] = lst\<close> with a list of strings that is neither the map,
  nor its list, nor one of its entries returns normally (the fuel of both loops is
  enough), the map then reads as the value model's \<open>setitem\<close> gives, and no object that
  existed before changes except the map and the value list.
\<close>

theorem h_setitem_refines:
  assumes "view h self = Some m" and "deref h r = Some (OSeq KList (map VStr vs))"
    and "r \<notin> set (fp h self)"
  shows "\<exists>h' m'. h_setitem h self k (VRef r) = Some (Inr h') \<and> setitem m k (ArgList vs) = Inr m' \<and>
     view h' self = Some m' \<and> unchanged_outside h h' {self, r}"
  using h_setitem_view [OF assms] by blast

theorem h_setitem_refines_witness:
  "view ex_heap 0 = Some ex_map \<and> deref ex_heap 3 = Some (OSeq KList (map VStr [''x''])) \<and>
   3 \<notin> set (fp ex_heap 0) \<and>
   (\<exists>h' m'. h_setitem ex_heap 0 ''a'' (VRef 3) = Some (Inr h') \<and> setitem ex_map ''a'' (ArgList [''x'']) = Inr m' \<and>
     view h' 0 = Some m' \<and> unchanged_outside ex_heap h' {0, 3})"
proof -
  have h: "view ex_heap 0 = Some ex_map" "deref ex_heap 3 = Some (OSeq KList (map VStr [''x'']))"
    "3 \<notin> set (fp ex_heap 0)"
    by (simp_all add: ex_eval)
  show ?thesis using h h_setitem_refines [OF h] by blast
qed

text \<open>
  C8: \<open>__setitem__\<close> consumes the caller's value list: after \<open>m[k] = lst\<close> the
  list object \<open>lst\<close> is empty.
\<close>

theorem h_setitem_empties_valuelist:
  assumes "view h self = Some m" and "deref h r = Some (OSeq KList (map VStr vs))"
    and "r \<notin> set (fp h self)"
  shows "\<exists>h'. h_setitem h self k (VRef r) = Some (Inr h') \<and> deref h' r = Some (OSeq KList [])"
  using h_setitem_view [OF assms] by blast

theorem h_setitem_empties_valuelist_witness:
  "view ex_heap 0 = Some ex_map \<and> deref ex_heap 3 = Some (OSeq KList (map VStr [''x''])) \<and>
   3 \<notin> set (fp ex_heap 0) \<and>
   (\<exists>h'. h_setitem ex_heap 0 ''a'' (VRef 3) = Some (Inr h') \<and> deref h' 3 = Some (OSeq KList []))"
proof -
  have h: "view ex_heap 0 = Some ex_map" "deref ex_heap 3 = Some (OSeq KList (map VStr [''x'']))"
    "3 \<notin> set (fp ex_heap 0)"
    by (simp_all add: ex_eval)
  show ?thesis using h h_setitem_empties_valuelist [OF h] by blast
qed

text \<open>
  C9: \<open>copy()\<close> of a map with list entries makes a map that reads the same and
  shares no object with it: any sequence of mutating calls on the copy (\<open>add\<close>,
  \<open>del\<close>, \<open>m[k] = lst\<close>, \<open>load_state\<close>, \<open>replace\<close>, writing into
  an entry of \<open>items()\<close>) leaves the original reading the same, and the other way round,
  when no value list passed belongs to the other map. \<open>extend\<close> is not among these
  calls: extending one map with the other shares entries again (C12).
\<close>

theorem h_copy_independent:
  assumes "view h self = Some m" and "wf_odict m" and "h_copy h self = Inr (s', h1)"
  shows "(\<forall>ops h2. run_ops subn h1 s' ops = Some (Inr h2) \<longrightarrow>
            (\<forall>op\<in>set ops. \<forall>r\<in>hop_writes op. r < length (objs h1) \<and> r \<notin> set (fp h1 self)) \<longrightarrow>
            view h2 self = Some m) \<and>
         (\<forall>ops h2. run_ops subn h1 self ops = Some (Inr h2) \<longrightarrow>
            (\<forall>op\<in>set ops. \<forall>r\<in>hop_writes op. r < length (objs h1) \<and> r \<notin> set (fp h1 s')) \<longrightarrow>
            view h2 s' = Some m)"
proof -
  obtain s'' h' where c: "h_copy h self = Inr (s'', h')" and v': "view h' s'' = Some m"
    and v: "view h' self = Some m" and fresh: "\<forall>x\<in>set (fp h' s''). length (objs h) \<le> x"
    and fpe: "fp h' self = fp h self"
    using h_copy_view [OF assms(1,2)] by blast
  have eq: "s'' = s'" "h' = h1" using c assms(3) by simp_all
  have disj: "set (fp h1 self) \<inter> set (fp h1 s') = {}"
    using fresh fp_less [OF assms(1)] fpe eq by fastforce
  show ?thesis
  proof (intro conjI allI impI)
    fix ops h2
    assume "run_ops subn h1 s' ops = Some (Inr h2)"
      and "\<forall>op\<in>set ops. \<forall>r\<in>hop_writes op. r < length (objs h1) \<and> r \<notin> set (fp h1 self)"
    then show "view h2 self = Some m" using run_ops_view v eq disj by blast
  next
    fix ops h2
    assume "run_ops subn h1 self ops = Some (Inr h2)"
      and "\<forall>op\<in>set ops. \<forall>r\<in>hop_writes op. r < length (objs h1) \<and> r \<notin> set (fp h1 s')"
    then show "view h2 s' = Some m" using run_ops_view v' eq disj by blast
  qed
qed

theorem h_copy_independent_witness:
  "view ex_heap 0 = Some ex_map \<and> wf_odict ex_map \<and> h_copy ex_heap 0 = Inr (6, ex_copy) \<and>
   (\<exists>h2. run_ops (\<lambda>p r s. Inr (s, 0)) ex_copy 6 [HAdd ''b'' ''2'', HItemSet 0 1 ''z'', HDel ''a''] = Some (Inr h2) \<and>
      view h2 0 = Some ex_map) \<and>
   (\<exists>h2. run_ops (\<lambda>p r s. Inr (s, 0)) ex_copy 0 [HItemSet 0 1 ''z'', HAdd ''c'' ''3''] = Some (Inr h2) \<and>
      view h2 6 = Some ex_map)"
proof -
  have h: "view ex_heap 0 = Some ex_map" "wf_odict ex_map" "h_copy ex_heap 0 = Inr (6, ex_copy)"
    by (simp_all add: ex_view ex_copy_run ex_map_def wf_odict_def)
  note c = h_copy_independent [OF h, of "\<lambda>p r s. Inr (s, 0)"]
  have r1: "\<exists>h2. run_ops (\<lambda>p r s. Inr (s, 0)) ex_copy 6 [HAdd ''b'' ''2'', HItemSet 0 1 ''z'', HDel ''a''] = Some (Inr h2)"
    by (simp add: ex_copy_def h_add_def h_lst_def deref_def h_new_pair_def alloc_def h_append_def store_obj_def
        h_item_set_def h_items_def h_seq_def py_list_store_def h_delitem_def h_key_def)
  have r2: "\<exists>h2. run_ops (\<lambda>p r s. Inr (s, 0)) ex_copy 0 [HItemSet 0 1 ''z'', HAdd ''c'' ''3''] = Some (Inr h2)"
    by (simp add: ex_copy_def h_add_def h_lst_def deref_def h_new_pair_def alloc_def h_append_def store_obj_def
        h_item_set_def h_items_def h_seq_def py_list_store_def)
  obtain h2 where run1: "run_ops (\<lambda>p r s. Inr (s, 0)) ex_copy 6 [HAdd ''b'' ''2'', HItemSet 0 1 ''z'', HDel ''a''] = Some (Inr h2)"
    using r1 by blast
  obtain h3 where run2: "run_ops (\<lambda>p r s. Inr (s, 0)) ex_copy 0 [HItemSet 0 1 ''z'', HAdd ''c'' ''3''] = Some (Inr h3)"
    using r2 by blast
  have "view h2 0 = Some ex_map" by (rule conjunct1 [OF c, rule_format, OF run1]) auto
  moreover have "view h3 6 = Some ex_map" by (rule conjunct2 [OF c, rule_format, OF run2]) auto
  ultimately show ?thesis using h run1 run2 by blast
qed

text \<open>
  C10: \<open>ODict(lst)\<close> keeps the caller's list when it is non-empty: a following
  \<open>add\<close> appends the new entry to the caller's list too. An empty list is replaced by a
  new one and is left alone.
\<close>

theorem h_init_aliases_caller_list:
  assumes "deref h r = Some (OSeq KList xs)" and "h_init h c (Some r) = (s, h1)"
  shows "\<exists>h2. h_add h1 s k v = Inr h2 \<and>
     deref h2 r = Some (OSeq KList (if xs = [] then [] else xs @ [VRef (length (objs h1))]))"
proof -
  have rlt: "r < length (objs h)" using assms(1) by (rule deref_Some_less)
  show ?thesis
  proof (cases "xs = []")
    case False
    then have s: "s = length (objs h)" and h1: "h1 = snd (alloc h (OInst c r))"
      using assms by (simp_all add: h_init_list)
    have r1: "deref h1 r = Some (OSeq KList xs)" using assms(1) rlt by (simp add: h1 deref_alloc)
    have "deref h1 s = Some (OInst c r)" by (simp add: s h1 deref_alloc)
    then have "h_add h1 s k v = Inr (store_obj (snd (alloc h1 (OSeq KList [VStr k, VStr v]))) r
        (OSeq KList (xs @ [VRef (length (objs h1))])))"
      using r1 by (rule h_add_eq)
    moreover have "deref (store_obj (snd (alloc h1 (OSeq KList [VStr k, VStr v]))) r
        (OSeq KList (xs @ [VRef (length (objs h1))]))) r = Some (OSeq KList (xs @ [VRef (length (objs h1))]))"
      using rlt by (simp add: deref_store h1)
    ultimately show ?thesis using False by auto
  next
    case True
    define N where "N = length (objs h)"
    have s: "s = Suc N" and h1: "h1 = snd (alloc (snd (alloc h (OSeq KList []))) (OInst c N))"
      using assms True by (simp_all add: h_init_list N_def)
    have n1: "deref h1 N = Some (OSeq KList [])" by (simp add: h1 N_def deref_alloc)
    have r1: "deref h1 r = Some (OSeq KList xs)" using assms(1) rlt by (simp add: h1 N_def deref_alloc)
    have "deref h1 s = Some (OInst c N)" by (simp add: s h1 N_def deref_alloc)
    then have "h_add h1 s k v = Inr (store_obj (snd (alloc h1 (OSeq KList [VStr k, VStr v]))) N
        (OSeq KList ([] @ [VRef (length (objs h1))])))"
      using n1 by (rule h_add_eq)
    moreover have "r \<noteq> N" "r < length (objs h1)" using rlt by (simp_all add: N_def h1)
    ultimately show ?thesis using r1 True by (simp add: deref_store deref_alloc)
  qed
qed

theorem h_init_aliases_caller_list_witness:
  "deref \<lparr>objs = [OSeq KList [VRef 1], OSeq KList [VStr ''a'', VStr ''1'']]\<rparr> 0 = Some (OSeq KList [VRef 1]) \<and>
   h_init \<lparr>objs = [OSeq KList [VRef 1], OSeq KList [VStr ''a'', VStr ''1'']]\<rparr> ODict (Some 0) =
     (2, \<lparr>objs = [OSeq KList [VRef 1], OSeq KList [VStr ''a'', VStr ''1''], OInst ODict 0]\<rparr>) \<and>
   (\<exists>h2. h_add \<lparr>objs = [OSeq KList [VRef 1], OSeq KList [VStr ''a'', VStr ''1''], OInst ODict 0]\<rparr> 2 ''b'' ''2'' = Inr h2 \<and>
      deref h2 0 = Some (OSeq KList [VRef 1, VRef 3]))"
proof -
  have h: "deref \<lparr>objs = [OSeq KList [VRef 1], OSeq KList [VStr ''a'', VStr ''1'']]\<rparr> 0 = Some (OSeq KList [VRef 1])"
    "h_init \<lparr>objs = [OSeq KList [VRef 1], OSeq KList [VStr ''a'', VStr ''1'']]\<rparr> ODict (Some 0) =
     (2, \<lparr>objs = [OSeq KList [VRef 1], OSeq KList [VStr ''a'', VStr ''1''], OInst ODict 0]\<rparr>)"
    by (simp_all add: deref_def h_init_def h_truthy_def alloc_def)
  show ?thesis using h h_init_aliases_caller_list [OF h, of "''b''" "''2''"] by (simp add: numeral_3_eq_3)
qed

text \<open>
  C11: \<open>items()\<close> returns the map's own entry objects: writing a value into
  \<open>m.items()[i][1]\<close> changes the value of entry \<open>i\<close> of the map.
\<close>

theorem h_items_write_through:
  assumes "view h s = Some m" and "deref h s = Some (OInst c l)" and "deref h l = Some (OSeq KList xs)"
    and "distinct xs" and "i < length xs" and "lst m ! i = LItem k v0"
  shows "\<exists>h'. h_item_set h s i 1 v = Inr h' \<and> view h' s = Some (m\<lparr>lst := (lst m)[i := LItem k v]\<rparr>)"
proof -
  obtain l' xs' where s': "deref h s = Some (OInst (cls m) l')" and l': "deref h l' = Some (OSeq KList xs')"
    and es: "those (map (read_entry h) xs') = Some (lst m)"
    using assms(1) by (rule view_SomeE)
  have eq: "l' = l" "xs' = xs" "cls m = c" using s' l' assms(2,3) by simp_all
  have re: "read_entry h (xs ! i) = Some (LItem k v0)"
    using those_map_nth [OF es, of i] assms(5,6) eq by (simp add: those_map_length)
  then obtain e where xe: "xs ! i = VRef e" by (cases "xs ! i") simp_all
  have de: "deref h e = Some (OSeq KList [VStr k, VStr v0])"
    using re xe by (auto split: option.splits pyobj.splits seqkind.splits list.splits pyval.splits)
  have ne: "e \<noteq> s \<and> e \<noteq> l"
    using view_entries_not_self_lst [OF assms(2,3) es [unfolded eq] refs_nth [OF assms(5) xe]] .
  define h1 where "h1 = snd (alloc h (OSeq KList xs))"
  define h' where "h' = store_obj h1 e (OSeq KList [VStr k, VStr v])"
  have elt: "e < length (objs h)" using de by (rule deref_Some_less)
  have e1: "deref h1 e = Some (OSeq KList [VStr k, VStr v0])" using de elt by (simp add: h1_def deref_alloc)
  have it: "h_items h s = Inr (length (objs h), h1)"
    using assms(2,3) by (simp add: h_items_def h_lst_def h1_def alloc_def)
  have run: "h_item_set h s i 1 v = Inr h'"
    using it assms(5) xe e1
    by (simp add: h_item_set_def h_seq_def h1_def deref_alloc py_list_store_def h'_def)
  have u: "unchanged_outside h h' {e}"
    unfolding h'_def h1_def by (rule uo_trans [OF uo_alloc uo_store]) simp
  have "those (map (read_entry h') xs) = Some ((lst m)[i := LItem k v])"
    using read_entries_store [OF es [unfolded eq] assms(4,5) xe u] elt
    by (simp add: h'_def h1_def deref_store deref_alloc)
  moreover have "deref h' s = Some (OInst c l)" "deref h' l = Some (OSeq KList xs)"
    using uo_deref [OF u assms(2)] uo_deref [OF u assms(3)] ne by auto
  ultimately have "view h' s = Some (m\<lparr>lst := (lst m)[i := LItem k v]\<rparr>)"
    using eq by (simp add: view_def h_lst_def)
  with run show ?thesis by blast
qed

theorem h_items_write_through_witness:
  "view ex_heap 0 = Some ex_map \<and> deref ex_heap 0 = Some (OInst ODict 1) \<and>
   deref ex_heap 1 = Some (OSeq KList [VRef 2]) \<and> distinct [VRef 2] \<and> 0 < length [VRef 2] \<and>
   lst ex_map ! 0 = LItem ''a'' ''1'' \<and>
   (\<exists>h'. h_item_set ex_heap 0 0 1 ''z'' = Inr h' \<and> view h' 0 = Some \<lparr>cls = ODict, lst = [LItem ''a'' ''z'']\<rparr>)"
proof -
  have h: "view ex_heap 0 = Some ex_map" "deref ex_heap 0 = Some (OInst ODict 1)"
    "deref ex_heap 1 = Some (OSeq KList [VRef 2])" "distinct [VRef 2]" "0 < length [VRef 2]"
    "lst ex_map ! 0 = LItem ''a'' ''1''"
    by (simp_all add: ex_view ex_eval)
  show ?thesis using h h_items_write_through [OF h, of "''z''"] by (simp add: ex_map_def)
qed

text \<open>
  C12: \<open>m.extend(other)\<close> appends the other map's entries as the same objects:
  afterwards \<open>m\<close> reads as the value model's \<open>extend\<close>, \<open>other\<close> is unchanged,
  and every entry object of \<open>other\<close> is an entry of both maps.
\<close>

theorem h_extend_shares_entries:
  assumes "view h s = Some m" and "view h t = Some m'" and "set (fp h s) \<inter> set (fp h t) = {}"
    and "h_extend h s t = Inr h'"
  shows "view h' s = Some (ODict.extend m m') \<and> view h' t = Some m' \<and>
     set (entry_refs h t) \<subseteq> set (entry_refs h' s) \<inter> set (entry_refs h' t)"
proof -
  obtain l xs where s: "deref h s = Some (OInst (cls m) l)" and l: "deref h l = Some (OSeq KList xs)"
    and xs: "those (map (read_entry h) xs) = Some (lst m)"
    using assms(1) by (rule view_SomeE)
  obtain l' ys where t: "deref h t = Some (OInst (cls m') l')" and l': "deref h l' = Some (OSeq KList ys)"
    and ys: "those (map (read_entry h) ys) = Some (lst m')"
    using assms(2) by (rule view_SomeE)
  have fps: "fp h s = s # l # refs xs" and fpt: "fp h t = t # l' # refs ys"
    using s l t l' by (simp_all add: fp_def)
  have h': "h' = store_obj h l (OSeq KList (xs @ ys))"
    using assms(4) s l t l' by (simp add: h_extend_def h_lst_def h_seq_def)
  have llt: "l < length (objs h)" using l by (rule deref_Some_less)
  have ls: "l \<noteq> s" using s l by auto
  have lt: "l \<noteq> t" "l \<noteq> l'" "l \<notin> set (refs ys)" using assms(3) fps fpt by auto
  have lx: "l \<notin> set (refs xs)" using view_entries_not_self_lst [OF s l xs] by blast
  have u: "unchanged_outside h h' {l}" unfolding h' by (rule uo_store) simp
  have s': "deref h' s = Some (OInst (cls m) l)" using u s ls by (auto intro: uo_deref)
  have l2: "deref h' l = Some (OSeq KList (xs @ ys))" using llt by (simp add: h' deref_store)
  have rd: "those (map (read_entry h') (xs @ ys)) = Some (lst m @ lst m')"
  proof -
    have "those (map (read_entry h') xs) = Some (lst m)" using uo_read_entries [OF u xs] lx by simp
    moreover have "those (map (read_entry h') ys) = Some (lst m')" using uo_read_entries [OF u ys] lt(3) by simp
    ultimately show ?thesis by (simp add: those_append)
  qed
  have "view h' s = Some (ODict.extend m m')"
    using s' l2 rd by (simp add: view_def h_lst_def ODict.extend_def)
  moreover have "view h' t = Some m'"
    using uo_view [OF u assms(2)] lt fpt by simp
  moreover have "deref h' t = deref h t" "deref h' l' = deref h l'"
    using uo_deref [OF u t] uo_deref [OF u l'] lt t l' by auto
  moreover have "entry_refs h' s = refs (xs @ ys)" using s' l2 by (simp add: entry_refs_def)
  ultimately show ?thesis using t l' by (auto simp: entry_refs_def)
qed

theorem h_extend_shares_entries_witness:
  "view ex_heap2 0 = Some ex_map \<and> view ex_heap2 3 = Some \<lparr>cls = ODict, lst = []\<rparr> \<and>
   set (fp ex_heap2 3) \<inter> set (fp ex_heap2 0) = {} \<and> h_extend ex_heap2 3 0 = Inr ex_heap2x \<and>
   view ex_heap2x 3 = Some \<lparr>cls = ODict, lst = [LItem ''a'' ''1'']\<rparr> \<and> view ex_heap2x 0 = Some ex_map \<and>
   set (entry_refs ex_heap2 0) \<subseteq> set (entry_refs ex_heap2x 3) \<inter> set (entry_refs ex_heap2x 0)"
proof -
  have h: "view ex_heap2 3 = Some \<lparr>cls = ODict, lst = []\<rparr>" "view ex_heap2 0 = Some ex_map"
    "set (fp ex_heap2 3) \<inter> set (fp ex_heap2 0) = {}" "h_extend ex_heap2 3 0 = Inr ex_heap2x"
    by (simp_all add: ex_heap2_def ex_heap2x_def ex_eval h_extend_def h_seq_def store_obj_def)
  show ?thesis using h h_extend_shares_entries [OF h] by (simp add: ODict.extend_def ex_map_def)
qed

text \<open>
  C13: \<open>from_state(klass, st)\<close> builds a map that reads as the value model's
  \<open>from_state\<close> and is made of new objects only: mutating calls on it leave every map
  that existed before reading the same.
\<close>

theorem h_from_state_alias_free:
  assumes "h_from_state h c st = (s, h')"
  shows "view h' s = Some (from_state c st) \<and>
     (\<forall>t m ops h2. view h t = Some m \<longrightarrow> run_ops subn h' s ops = Some (Inr h2) \<longrightarrow>
        (\<forall>op\<in>set ops. \<forall>r\<in>hop_writes op. r < length (objs h') \<and> r \<notin> set (fp h t)) \<longrightarrow>
        view h2 t = Some m)"
proof -
  have v: "view h' s = Some (from_state c st)" and fresh: "\<forall>x\<in>set (fp h' s). length (objs h) \<le> x"
    and u: "unchanged_outside h h' {}"
    using h_from_state_view [OF assms] by blast+
  show ?thesis
  proof (intro conjI allI impI)
    fix t m ops h2
    assume vt: "view h t = Some m" and run: "run_ops subn h' s ops = Some (Inr h2)"
      and w: "\<forall>op\<in>set ops. \<forall>r\<in>hop_writes op. r < length (objs h') \<and> r \<notin> set (fp h t)"
    have vt': "view h' t = Some m" using uo_view [OF u vt] by simp
    have fpt: "fp h' t = fp h t" using uo_fp [OF u] fp_less [OF vt] by simp
    have "set (fp h' t) \<inter> set (fp h' s) = {}" using fpt fp_less [OF vt] fresh by fastforce
    then show "view h2 t = Some m" using run_ops_view [OF run vt'] w fpt by simp
  qed (rule v)
qed

theorem h_from_state_alias_free_witness:
  "h_from_state ex_heap ODict [(''a'', ''1'')] = (6, ex_copy) \<and>
   view ex_copy 6 = Some (from_state ODict [(''a'', ''1'')]) \<and>
   (\<exists>h2. run_ops (\<lambda>p r s. Inr (s, 0)) ex_copy 6 [HItemSet 0 1 ''z'', HAdd ''b'' ''2''] = Some (Inr h2) \<and>
      view h2 0 = Some ex_map)"
proof -
  have h: "h_from_state ex_heap ODict [(''a'', ''1'')] = (6, ex_copy)"
    by (simp add: ex_heap_def ex_copy_def h_from_state_def h_new_entry_list_def h_new_pair_def alloc_def
        h_init_def h_truthy_def deref_def)
  note c = h_from_state_alias_free [OF h, of "\<lambda>p r s. Inr (s, 0)"]
  have "\<exists>h2. run_ops (\<lambda>p r s. Inr (s, 0)) ex_copy 6 [HItemSet 0 1 ''z'', HAdd ''b'' ''2''] = Some (Inr h2)"
    by (simp add: ex_copy_def h_add_def h_lst_def deref_def h_new_pair_def alloc_def h_append_def
        store_obj_def h_item_set_def h_items_def h_seq_def py_list_store_def)
  then obtain h2 where run: "run_ops (\<lambda>p r s. Inr (s, 0)) ex_copy 6 [HItemSet 0 1 ''z'', HAdd ''b'' ''2''] = Some (Inr h2)"
    by blast
  have "view h2 0 = Some ex_map"
    by (rule conjunct2 [OF c, rule_format, OF ex_view run]) auto
  then show ?thesis using h c run by blast
qed

text \<open>
  C14: On the store, \<open>add\<close>, \<open>del m[k]\<close> and \<open>load_state\<close> return normally
  and the map then reads as the value model's method gives.
\<close>

theorem h_methods_refine:
  assumes "view h s = Some m"
  shows "(\<exists>h'. h_add h s k v = Inr h' \<and> view h' s = Some (add m k v)) \<and>
     (\<exists>h'. h_delitem h s k = Inr h' \<and> view h' s = Some (delitem m k)) \<and>
     (\<exists>h'. h_load_state h s st = Inr h' \<and> view h' s = Some (load_state m st))"
  using h_add_view [OF assms] h_delitem_view [OF assms] h_load_state_view [OF assms] by blast

theorem h_methods_refine_witness:
  "view ex_heap 0 = Some ex_map \<and>
   (\<exists>h'. h_add ex_heap 0 ''b'' ''2'' = Inr h' \<and> view h' 0 = Some (add ex_map ''b'' ''2'')) \<and>
   (\<exists>h'. h_delitem ex_heap 0 ''a'' = Inr h' \<and> view h' 0 = Some (delitem ex_map ''a'')) \<and>
   (\<exists>h'. h_load_state ex_heap 0 [] = Inr h' \<and> view h' 0 = Some (load_state ex_map []))"
  using ex_view h_methods_refine [OF ex_view] by blast

theorem h_setitem_walk_fuel_witness:
  "\<exists>y. h_setitem_walk 2 (snd (alloc ex_heap (OSeq KList []))) ODict ''a'' (kconv ODict ''a'') 1 0 1
      (length (objs ex_heap)) = Some y \<and>
    h_setitem_walk 7 (snd (alloc ex_heap (OSeq KList []))) ODict ''a'' (kconv ODict ''a'') 1 0 1
      (length (objs ex_heap)) = Some y"
proof -
  have "length (objs ex_heap) \<noteq> 1 \<and> seq_len (snd (alloc ex_heap (OSeq KList []))) 1 - 0 < 2"
    by (simp add: ex_heap_def alloc_def seq_len_def h_seq_def deref_def)
  then obtain y where "\<forall>m\<ge>2. h_setitem_walk m (snd (alloc ex_heap (OSeq KList []))) ODict ''a'' (kconv ODict ''a'') 1 0 1
      (length (objs ex_heap)) = Some y"
    using h_setitem_walk_fuel [of "length (objs ex_heap)" 1 "snd (alloc ex_heap (OSeq KList []))" 0 2]
    by blast
  then show ?thesis by auto
qed

theorem run_ops_total_witness:
  "\<exists>y. run_ops (\<lambda>p r s. Inr (s, 0)) ex_heap 0 [HAdd ''b'' ''2'', HSet ''a'' 1] = Some y"
proof -
  have "\<forall>op\<in>set [HAdd ''b'' ''2'', HSet ''a'' 1]. \<forall>r\<in>hop_writes op. r < length (objs ex_heap)"
    by (simp add: ex_heap_def)
  then show ?thesis using run_ops_total [of "[HAdd ''b'' ''2'', HSet ''a'' 1]" ex_heap "\<lambda>p r s. Inr (s, 0)" 0]
    by blast
qed

theorem iter_yields_entries_witness:
  "\<exists>it vs. h_iter ex_heap 0 = Inr it \<and> iter_collect 2 ex_heap it = Some vs \<and>
     those (map (read_entry ex_heap) vs) = Some [LItem ''a'' ''1'']"
  using iter_yields_entries [OF ex_view] by (simp add: ex_map_def numeral_2_eq_2 del: iter_collect.simps)

theorem iter_add_never_ends_witness:
  "iter_add_loop 1000 ex_heap 0 \<lparr>it_seq = Some 1, it_index = 0\<rparr> ''b'' ''2'' = None"
  using iter_add_never_ends [OF ex_view _ ex_iter] by (simp add: ex_map_def)

end
